theory Spec2Isabelle
  imports Main "HOL-Library.AList"
begin

section \<open>Python values\<close>

subsection \<open>Strings\<close>

text \<open>
  A Python \<open>str\<close> is a sequence of Unicode code points, and \<open>str.strip\<close> and
  \<open>str.splitlines\<close> work on code points (the key \<open>U+540D U+79F0\<close> is two of them),
  so a string is a list of code points here. \<open>u\<close> reads an ASCII literal.
\<close>

type_synonym ustr = "nat list"

definition u :: "string \<Rightarrow> ustr" where
  "u s = map of_char s"

text \<open>The code points that \<open>str.strip()\<close> removes (those with \<open>str.isspace\<close>).\<close>

definition is_space :: "nat \<Rightarrow> bool" where
  "is_space c \<longleftrightarrow>
     c \<in> set [9, 10, 11, 12, 13, 28, 29, 30, 31, 32, 133, 160, 5760,
              8232, 8233, 8239, 8287, 12288]
     \<or> (8192 \<le> c \<and> c \<le> 8202)"

definition strip :: "ustr \<Rightarrow> ustr" where
  "strip s = rev (dropWhile is_space (rev (dropWhile is_space s)))"

text \<open>The line boundaries of \<open>str.splitlines()\<close>; \<open>\r\n\<close> is one boundary.\<close>

definition is_linebreak :: "nat \<Rightarrow> bool" where
  "is_linebreak c \<longleftrightarrow> c \<in> set [10, 11, 12, 13, 28, 29, 30, 133, 8232, 8233]"

fun splitlines_from :: "ustr \<Rightarrow> ustr \<Rightarrow> ustr list" where
  "splitlines_from cur [] = (if cur = [] then [] else [cur])"
| "splitlines_from cur [c] = (if is_linebreak c then [cur] else [cur @ [c]])"
| "splitlines_from cur (c # d # cs) =
     (if c = 13 \<and> d = 10 then cur # splitlines_from [] cs
      else if is_linebreak c then cur # splitlines_from [] (d # cs)
      else splitlines_from (cur @ [c]) (d # cs))"

definition splitlines :: "ustr \<Rightarrow> ustr list" where
  "splitlines s = splitlines_from [] s"

text \<open>
  \<open>str(i)\<close> for a non-negative integer, and the two f-strings that build a fresh name:
  \<open>f"{base} ({i})"\<close> in \<open>import_csv\<close> and \<open>"{} (\<dots>{})".format(base, i)\<close> in
  \<open>dup_item\<close>, whose infix is the two code points \<open>U+590D U+5236\<close>.
\<close>

fun str_nat :: "nat \<Rightarrow> ustr" where
  "str_nat n = (if n < 10 then [48 + n] else str_nat (n div 10) @ [48 + n mod 10])"

declare str_nat.simps [simp del]

definition fmt_rename :: "ustr \<Rightarrow> nat \<Rightarrow> ustr" where
  "fmt_rename base i = base @ u '' ('' @ str_nat i @ u '')''"

definition fmt_copy :: "ustr \<Rightarrow> nat \<Rightarrow> ustr" where
  "fmt_copy base i = base @ u '' ('' @ [22797, 21046] @ str_nat i @ u '')''"

subsection \<open>JSON values as \<open>json.loads\<close> returns them\<close>

datatype pyfloat = Finite bool nat int | Infinite bool | NaN

datatype json =
    JNull
  | JBool bool
  | JInt int
  | JFloat pyfloat
  | JStr ustr
  | JArr "json list"
  | JObj "(ustr \<times> json) list"

text \<open>
  A \<open>dict\<close> keeps insertion order: it is an association list, \<open>d[k] = v\<close> is
  \<open>AList.update k v d\<close> (in place when the key is there, appended otherwise) and
  \<open>k in d\<close> is \<open>map_of d k \<noteq> None\<close>. A record of the program is a dict of JSON values.
\<close>

type_synonym 'v dict = "(ustr \<times> 'v) list"
type_synonym item = "json dict"

text \<open>Python truthiness, which every \<open>if x\<close>, \<open>not x\<close> and \<open>a or b\<close> of the source tests.\<close>

fun truthy :: "json \<Rightarrow> bool" where
  "truthy JNull = False"
| "truthy (JBool b) = b"
| "truthy (JInt i) = (i \<noteq> 0)"
| "truthy (JFloat (Finite s m e)) = (m \<noteq> 0)"
| "truthy (JFloat (Infinite s)) = True"
| "truthy (JFloat NaN) = True"
| "truthy (JStr s) = (s \<noteq> [])"
| "truthy (JArr xs) = (xs \<noteq> [])"
| "truthy (JObj kvs) = (kvs \<noteq> [])"

definition py_or :: "json \<Rightarrow> json \<Rightarrow> json" where
  "py_or a b = (if truthy a then a else b)"

text \<open>\<open>d.get(k)\<close>, which is \<open>None\<close> for a missing key, and \<open>d.get(k, "")\<close>.\<close>

definition dict_get :: "item \<Rightarrow> ustr \<Rightarrow> json" where
  "dict_get d k = (case map_of d k of None \<Rightarrow> JNull | Some v \<Rightarrow> v)"

definition dict_get_str :: "item \<Rightarrow> ustr \<Rightarrow> json" where
  "dict_get_str d k = (case map_of d k of None \<Rightarrow> JStr [] | Some v \<Rightarrow> v)"

text \<open>
  \<open>str(v)\<close>: a string is returned as it is; for every other value the text is Python's
  \<open>repr\<close>, a builtin that is a parameter \<open>repr\<close> of the model.
\<close>

definition py_str :: "(json \<Rightarrow> ustr) \<Rightarrow> json \<Rightarrow> ustr" where
  "py_str repr v = (case v of JStr s \<Rightarrow> s | _ \<Rightarrow> repr v)"

definition opt_str :: "ustr option \<Rightarrow> json" where
  "opt_str s = (case s of None \<Rightarrow> JNull | Some t \<Rightarrow> JStr t)"

definition key_name :: ustr where "key_name = u ''name''"
definition key_title :: ustr where "key_title = u ''title''"
definition key_items :: ustr where "key_items = u ''items''"
definition key_value :: ustr where "key_value = u ''value''"
definition key_mingcheng :: ustr where "key_mingcheng = [21517, 31216]"

section \<open>Reading records (db\_editor.py and linkStart.py)\<close>

text \<open>
  \<open>try_read_text\<close>: the argument lists, for the seven encodings in order, what
  \<open>open(path, encoding=enc).read()\<close> gives, \<open>None\<close> where it raises.
\<close>

fun try_read_text :: "ustr option list \<Rightarrow> ustr option" where
  "try_read_text [] = None"
| "try_read_text (None # encs) = try_read_text encs"
| "try_read_text (Some t # encs) =
     (if t \<noteq> [] \<and> strip t \<noteq> [] then Some t else try_read_text encs)"

text \<open>
  The loop body shared by \<open>norm_one\<close> and \<open>_normalize_record\<close>:
  \<open>kk = str(k).strip(); if kk: out[kk] = v if v is not None else ""\<close>.
  The keys of a parsed JSON object are strings, so \<open>k is None\<close> never holds.
\<close>

definition copy_entry :: "ustr \<times> json \<Rightarrow> item \<Rightarrow> item" where
  "copy_entry kv out =
     (let kk = strip (fst kv) in
      if kk \<noteq> [] then AList.update kk (if snd kv \<noteq> JNull then snd kv else JStr []) out
      else out)"

text \<open>\<open>norm_one\<close> of \<open>read_json_list\<close> (db\_editor.py).\<close>

definition norm_one :: "(json \<Rightarrow> ustr) \<Rightarrow> json \<Rightarrow> ustr option \<Rightarrow> item option" where
  "norm_one repr rec fallback_name =
     (case rec of
        JObj kvs \<Rightarrow>
          (let out = fold copy_entry kvs [];
               out = (if map_of out key_name = None then
                        (let nm = py_or (py_or (dict_get out key_mingcheng) (dict_get out key_title))
                                    (opt_str fallback_name)
                         in if nm \<noteq> JNull then AList.update key_name (JStr (py_str repr nm)) out
                            else out)
                      else out)
           in if truthy (dict_get out key_name) then Some out else None)
      | JStr s \<Rightarrow> Some [(key_name, JStr s)]
      | _ \<Rightarrow> None)"

text \<open>\<open>_normalize_record\<close> (linkStart.py): the name is looked up in \<open>rec\<close> itself.\<close>

definition normalize_record :: "(json \<Rightarrow> ustr) \<Rightarrow> json \<Rightarrow> ustr option \<Rightarrow> item option" where
  "normalize_record repr rec fallback_name =
     (case rec of
        JObj kvs \<Rightarrow>
          (let name = dict_get kvs key_name;
               name = (if \<not> truthy name then
                         py_or (py_or (dict_get kvs key_mingcheng) (dict_get kvs key_title))
                           (opt_str fallback_name)
                       else name);
               out = fold copy_entry kvs [];
               out = (if name \<noteq> JNull \<and> map_of out key_name = None
                      then AList.update key_name (JStr (py_str repr name)) out else out)
           in if truthy (dict_get out key_name) then Some out else None)
      | JStr s \<Rightarrow> Some [(key_name, JStr s)]
      | _ \<Rightarrow> None)"

text \<open>\<open>if x: out.append(x)\<close>: \<open>None\<close> and the empty dict are both falsy.\<close>

definition keep :: "item option \<Rightarrow> item list \<Rightarrow> item list" where
  "keep x out = (case x of None \<Rightarrow> out | Some d \<Rightarrow> if d \<noteq> [] then out @ [d] else out)"

text \<open>
  The JSON-Lines branch (the \<open>except\<close> of the whole-text parse). \<open>loads\<close> is
  \<open>json.loads\<close>, \<open>None\<close> where it raises; the inner \<open>try\<close> swallows that.
\<close>

definition jsonl_line ::
  "(json \<Rightarrow> ustr option \<Rightarrow> item option) \<Rightarrow> (ustr \<Rightarrow> json option) \<Rightarrow> ustr \<Rightarrow> item list \<Rightarrow> item list" where
  "jsonl_line norm loads line arr =
     (let line = strip line in
      if line = [] then arr
      else (case loads line of None \<Rightarrow> arr | Some obj \<Rightarrow> keep (norm obj None) arr))"

definition jsonl_records ::
  "(json \<Rightarrow> ustr option \<Rightarrow> item option) \<Rightarrow> (ustr \<Rightarrow> json option) \<Rightarrow> ustr \<Rightarrow> item list" where
  "jsonl_records norm loads text = fold (jsonl_line norm loads) (splitlines text) []"

text \<open>The dispatch on the shape of the parsed document, the same in both files.\<close>

definition table_entry ::
  "(json \<Rightarrow> ustr option \<Rightarrow> item option) \<Rightarrow> ustr \<times> json \<Rightarrow> item list \<Rightarrow> item list" where
  "table_entry norm kv out =
     keep (case snd kv of
             JObj d \<Rightarrow> norm (snd kv) (Some (fst kv))
           | _ \<Rightarrow> norm (JObj [(key_name, JStr (fst kv)), (key_value, snd kv)]) None) out"

definition document_records ::
  "(json \<Rightarrow> ustr option \<Rightarrow> item option) \<Rightarrow> json \<Rightarrow> item list" where
  "document_records norm data =
     (case data of
        JArr xs \<Rightarrow> fold (\<lambda>it out. keep (norm it None) out) xs []
      | JObj kvs \<Rightarrow>
          (case dict_get kvs key_items of
             JArr its \<Rightarrow> fold (\<lambda>it out. keep (norm it None) out) its []
           | _ \<Rightarrow> fold (table_entry norm) kvs [])
      | _ \<Rightarrow> [])"

text \<open>
  \<open>read_json_list\<close> (db\_editor.py). The file is \<open>None\<close> when \<open>os.path.exists\<close> is
  false, otherwise the outcomes of reading it that \<open>try_read_text\<close> goes through.
\<close>

definition read_json_text ::
  "(ustr \<Rightarrow> json option) \<Rightarrow> (json \<Rightarrow> ustr) \<Rightarrow> ustr \<Rightarrow> item list" where
  "read_json_text loads repr text =
     (case loads text of
        None \<Rightarrow> jsonl_records (norm_one repr) loads text
      | Some data \<Rightarrow> document_records (norm_one repr) data)"

definition read_json_list ::
  "(ustr \<Rightarrow> json option) \<Rightarrow> (json \<Rightarrow> ustr) \<Rightarrow> ustr option list option \<Rightarrow> item list" where
  "read_json_list loads repr file =
     (case file of
        None \<Rightarrow> []
      | Some encs \<Rightarrow>
          (case try_read_text encs of
             None \<Rightarrow> []
           | Some text \<Rightarrow> if text = [] then [] else read_json_text loads repr text))"

text \<open>
  The de-duplication loop, written twice in the source: at the end of
  \<open>read_json_records\<close> and in \<open>TabEditor.apply_records\<close>. The elements are dicts by
  construction, so \<open>isinstance(r, dict)\<close> holds. \<open>name_of r\<close> is
  \<open>str(r.get("name", "")).strip()\<close>.
\<close>

definition name_of :: "(json \<Rightarrow> ustr) \<Rightarrow> item \<Rightarrow> ustr" where
  "name_of repr r = strip (py_str repr (dict_get_str r key_name))"

fun dedup_loop :: "(json \<Rightarrow> ustr) \<Rightarrow> ustr set \<Rightarrow> item list \<Rightarrow> item list \<Rightarrow> item list" where
  "dedup_loop repr seen out [] = out"
| "dedup_loop repr seen out (r # rs) =
     (let nm = name_of repr r in
      if nm = [] then dedup_loop repr seen out rs
      else if nm \<in> seen then dedup_loop repr seen out rs
      else dedup_loop repr (insert nm seen) (out @ [r]) rs)"

definition dedup :: "(json \<Rightarrow> ustr) \<Rightarrow> item list \<Rightarrow> item list" where
  "dedup repr records = dedup_loop repr {} [] records"

text \<open>
  \<open>read_json_records\<close> (linkStart.py): the JSON-Lines branch returns its records as
  they are, the other branch de-duplicates them.
\<close>

definition read_json_records ::
  "(ustr \<Rightarrow> json option) \<Rightarrow> (json \<Rightarrow> ustr) \<Rightarrow> ustr option list option \<Rightarrow> item list" where
  "read_json_records loads repr file =
     (case file of
        None \<Rightarrow> []
      | Some encs \<Rightarrow>
          (case try_read_text encs of
             None \<Rightarrow> []
           | Some text \<Rightarrow>
               if text = [] then []
               else (case loads text of
                       None \<Rightarrow> jsonl_records (normalize_record repr) loads text
                     | Some data \<Rightarrow> dedup repr (document_records (normalize_record repr) data))))"

definition has_name :: "item \<Rightarrow> bool" where
  "has_name r \<longleftrightarrow> map_of r key_name \<noteq> None \<and> truthy (dict_get r key_name)"

section \<open>Writing records and reading CSV (db\_editor.py)\<close>










text \<open>
  \<open>read_csv_rows\<close>. \<open>parses\<close> lists, for the seven encodings in order, the rows
  \<open>csv.reader\<close> yields under the sniffed dialect, \<open>None\<close> where opening or parsing
  raises. The loop keeps the first non-empty result.
\<close>

fun first_rows :: "ustr list list option list \<Rightarrow> ustr list list" where
  "first_rows [] = []"
| "first_rows (None # ps) = first_rows ps"
| "first_rows (Some raw # ps) =
     (let rows = map (map strip) raw in if rows \<noteq> [] then rows else first_rows ps)"

definition any_nonblank :: "ustr list \<Rightarrow> bool" where
  "any_nonblank r \<longleftrightarrow> list_ex (\<lambda>c. strip c \<noteq> []) r"

definition csv_headers :: "ustr list list \<Rightarrow> ustr list" where
  "csv_headers rows = map (\<lambda>h. strip (dropWhile (\<lambda>c. c = 65279) h)) (rows ! 0)"

definition csv_data_rows :: "ustr list list \<Rightarrow> ustr list list" where
  "csv_data_rows rows =
     (if 2 \<le> length rows \<and> any_nonblank (rows ! 1) then drop 2 rows else drop 1 rows)"

definition csv_row_dict :: "ustr list \<Rightarrow> ustr list \<Rightarrow> ustr dict" where
  "csv_row_dict headers r =
     fold (\<lambda>(i, k) d. if k = [] then d
                       else AList.update k (if i < length r then r ! i else []) d)
       (enumerate 0 headers) []"

definition csv_rows_out :: "ustr list list \<Rightarrow> ustr dict list" where
  "csv_rows_out rows =
     fold (\<lambda>r out. if \<not> any_nonblank r then out else out @ [csv_row_dict (csv_headers rows) r])
       (csv_data_rows rows) []"

definition read_csv_rows ::
  "ustr option list option \<Rightarrow> ustr list list option list \<Rightarrow> ustr dict list" where
  "read_csv_rows file parses =
     (case file of
        None \<Rightarrow> []
      | Some encs \<Rightarrow>
          (case try_read_text encs of
             None \<Rightarrow> []
           | Some text \<Rightarrow>
               if text = [] then []
               else (let rows = first_rows parses in
                     if rows = [] then [] else csv_rows_out rows)))"

section \<open>The editor (\<open>TabEditor\<close>, db\_editor.py)\<close>

text \<open>
  The part of a \<open>TabEditor\<close> that the operations below read and write: the list of
  records and the index from trimmed name to position. What the user does in a dialog
  or in the list box (the text entered, the selected entry, the answer to a question)
  is an argument of the operation. Every operation returns what it showed and the
  editor afterwards; \<open>Raised\<close> stands for an exception leaving the callback.
\<close>

record editor =
  records :: "item list"
  index :: "nat dict"

datatype feedback = Silent | Status | ShowInfo | ShowWarning | ShowError | Raised

record field =
  key :: ustr
  ftype :: ustr
  default :: "json option"
  required :: bool

text \<open>
  \<open>rebuild_index\<close> maps each non-empty trimmed name to the position of the first
  record that has it. \<open>with_records repr rs\<close> is the editor after
  \<open>self.records = rs; self.rebuild_index()\<close>.
\<close>

definition rebuild_index :: "(json \<Rightarrow> ustr) \<Rightarrow> item list \<Rightarrow> nat dict" where
  "rebuild_index repr rs =
     fold (\<lambda>(i, r) idx. let nm = name_of repr r in
                         if nm \<noteq> [] \<and> map_of idx nm = None then AList.update nm i idx else idx)
       (enumerate 0 rs) []"

definition with_records :: "(json \<Rightarrow> ustr) \<Rightarrow> item list \<Rightarrow> editor" where
  "with_records repr rs = \<lparr>records = rs, index = rebuild_index repr rs\<rparr>"

definition apply_records :: "(json \<Rightarrow> ustr) \<Rightarrow> item list \<Rightarrow> editor" where
  "apply_records repr rs = with_records repr (dedup repr rs)"

text \<open>
  The loops \<open>while new in self.index: i += 1; new = \<dots>\<close> of \<open>dup_item\<close> and
  \<open>import_csv\<close>: the candidate is \<open>pre + str(i) + post\<close>, and the loop returns the
  first \<open>i\<close> from its start whose candidate is not a key of the index.
\<close>

lemma str_nat_nonempty: "str_nat n \<noteq> []"
  by (subst str_nat.simps) simp

lemma str_nat_inj: "str_nat n = str_nat m \<Longrightarrow> n = m"
proof (induction n arbitrary: m rule: str_nat.induct)
  case (1 n)
  show ?case
  proof (cases "n < 10")
    case True
    show ?thesis
    proof (cases "m < 10")
      case True
      with \<open>n < 10\<close> "1.prems" show ?thesis
        by (simp add: str_nat.simps [of n] str_nat.simps [of m])
    next
      case False
      with \<open>n < 10\<close> "1.prems" str_nat_nonempty [of "m div 10"] show ?thesis
        by (simp add: str_nat.simps [of n] str_nat.simps [of m] Cons_eq_append_conv)
    qed
  next
    case False
    show ?thesis
    proof (cases "m < 10")
      case True
      with \<open>\<not> n < 10\<close> "1.prems" str_nat_nonempty [of "n div 10"] show ?thesis
        by (simp add: str_nat.simps [of n] str_nat.simps [of m] append_eq_Cons_conv)
    next
      case m: False
      with False "1.prems" have "str_nat (n div 10) = str_nat (m div 10)" "n mod 10 = m mod 10"
        by (simp_all add: str_nat.simps [of n] str_nat.simps [of m])
      with "1.IH" [OF False] have "n div 10 = m div 10" "n mod 10 = m mod 10"
        by auto
      then show ?thesis
        by (metis div_mult_mod_eq)
    qed
  qed
qed

lemma taken_finite: "finite {j. map_of idx (pre @ str_nat j @ post) \<noteq> None}"
proof -
  have "inj (\<lambda>j. pre @ str_nat j @ post)"
    by (auto simp: inj_on_def dest: str_nat_inj)
  moreover have "finite (dom (map_of idx))"
    by (rule finite_dom_map_of)
  ultimately have "finite ((\<lambda>j. pre @ str_nat j @ post) -` dom (map_of idx))"
    by (rule finite_vimageI [rotated])
  then show ?thesis
    by (simp add: vimage_def dom_def)
qed

function first_free :: "ustr \<Rightarrow> ustr \<Rightarrow> 'v dict \<Rightarrow> nat \<Rightarrow> nat" where
  "first_free pre post idx i =
     (if map_of idx (pre @ str_nat i @ post) \<noteq> None then first_free pre post idx (Suc i) else i)"
  by pat_completeness auto
termination
proof (relation "measure (\<lambda>(pre, post, idx, i).
          card {j. i \<le> j \<and> map_of idx (pre @ str_nat j @ post) \<noteq> None})")
  show "wf (measure (\<lambda>(pre, post, idx :: 'v dict, i).
          card {j. i \<le> j \<and> map_of idx (pre @ str_nat j @ post) \<noteq> None}))"
    by simp
next
  fix pre post :: ustr and idx :: "'v dict" and i :: nat
  assume taken: "map_of idx (pre @ str_nat i @ post) \<noteq> None"
  let ?T = "\<lambda>k. {j. k \<le> j \<and> map_of idx (pre @ str_nat j @ post) \<noteq> None}"
  have fin: "finite (?T i)"
    by (rule finite_subset [OF _ taken_finite [of idx pre post]]) auto
  have "?T (Suc i) \<subset> ?T i"
    using taken by (auto simp: Suc_le_eq)
  then have "card (?T (Suc i)) < card (?T i)"
    by (rule psubset_card_mono [OF fin])
  then show "((pre, post, idx, Suc i), (pre, post, idx, i))
      \<in> measure (\<lambda>(pre, post, idx, i).
          card {j. i \<le> j \<and> map_of idx (pre @ str_nat j @ post) \<noteq> None})"
    by simp
qed

declare first_free.simps [simp del]

definition rename_name :: "nat dict \<Rightarrow> ustr \<Rightarrow> ustr" where
  "rename_name idx base = fmt_rename base (first_free (base @ u '' ('') (u '')'') idx 2)"

definition copy_name :: "nat dict \<Rightarrow> ustr \<Rightarrow> ustr" where
  "copy_name idx base =
     fmt_copy base (first_free (base @ u '' ('' @ [22797, 21046]) (u '')'') idx 2)"

text \<open>\<open>add_item\<close>: \<open>answer\<close> is what \<open>askstring\<close> returns, \<open>None\<close> on cancel.\<close>

definition field_default :: "field \<Rightarrow> json" where
  "field_default f =
     (if ftype f \<noteq> u ''text'' then (case default f of None \<Rightarrow> JStr [] | Some v \<Rightarrow> v)
      else JStr [])"

definition new_record :: "field list \<Rightarrow> ustr \<Rightarrow> item" where
  "new_record schema name =
     fold (\<lambda>f rec. if map_of rec (key f) = None then AList.update (key f) (field_default f) rec
                   else rec)
       schema [(key_name, JStr name)]"

definition add_item ::
  "(json \<Rightarrow> ustr) \<Rightarrow> field list \<Rightarrow> ustr option \<Rightarrow> editor \<Rightarrow> feedback \<times> editor" where
  "add_item repr schema answer ed =
     (case answer of
        None \<Rightarrow> (Silent, ed)
      | Some name \<Rightarrow>
          if name = [] then (Silent, ed)
          else (let name = strip name in
                if name = [] then (Silent, ed)
                else if map_of (index ed) name \<noteq> None then (ShowWarning, ed)
                else (Status, with_records repr
                                (records ed @ [new_record schema name]))))"

text \<open>
  \<open>dup_item\<close>, \<open>del_item\<close>: \<open>sel\<close> is the selected entry of the list box, \<open>None\<close>
  when nothing is selected; \<open>confirm\<close> is the answer of \<open>askyesno\<close>.
\<close>

definition dup_item ::
  "(json \<Rightarrow> ustr) \<Rightarrow> ustr option \<Rightarrow> editor \<Rightarrow> feedback \<times> editor" where
  "dup_item repr sel ed =
     (case sel of
        None \<Rightarrow> (Silent, ed)
      | Some old \<Rightarrow>
          (case map_of (index ed) old of
             None \<Rightarrow> (Silent, ed)
           | Some idx \<Rightarrow>
               (let new = copy_name (index ed) old in
                if idx < length (records ed) then
                  (Status, with_records repr
                     (records ed @ [AList.update key_name (JStr new) (records ed ! idx)]))
                else (Raised, ed))))"

definition del_item ::
  "(json \<Rightarrow> ustr) \<Rightarrow> ustr option \<Rightarrow> bool \<Rightarrow> editor \<Rightarrow> feedback \<times> editor" where
  "del_item repr sel confirm ed =
     (case sel of
        None \<Rightarrow> (Silent, ed)
      | Some nm \<Rightarrow>
          if \<not> confirm then (Silent, ed)
          else (case map_of (index ed) nm of
                  None \<Rightarrow> (Status, with_records repr (records ed))
                | Some idx \<Rightarrow>
                    if idx < length (records ed) then
                      (Status, with_records repr
                         (take idx (records ed) @ drop (Suc idx) (records ed)))
                    else (Raised, ed)))"

text \<open>
  \<open>collect_form\<close> reads one widget per schema field: a \<open>Text\<close> widget gives its
  content, stripped; a Tk variable gives \<open>v.get()\<close>, which raises when an \<open>IntVar\<close>
  holds no integer.
\<close>

datatype widget = TextW ustr | VarW "json option"

fun collect_form :: "(ustr \<Rightarrow> widget) \<Rightarrow> field list \<Rightarrow> item \<Rightarrow> item option" where
  "collect_form form [] rec = Some rec"
| "collect_form form (f # fs) rec =
     (case form (key f) of
        TextW t \<Rightarrow> collect_form form fs (AList.update (key f) (JStr (strip t)) rec)
      | VarW None \<Rightarrow> None
      | VarW (Some v) \<Rightarrow> collect_form form fs (AList.update (key f) v rec))"

definition missing_required :: "(json \<Rightarrow> ustr) \<Rightarrow> field list \<Rightarrow> item \<Rightarrow> bool" where
  "missing_required repr schema rec \<longleftrightarrow>
     list_ex (\<lambda>f. required f \<and> strip (py_str repr (dict_get_str rec (key f))) = []) schema"

definition save_current_item ::
  "(json \<Rightarrow> ustr) \<Rightarrow> field list \<Rightarrow> (ustr \<Rightarrow> widget) \<Rightarrow> ustr option \<Rightarrow> editor
     \<Rightarrow> feedback \<times> editor" where
  "save_current_item repr schema form sel ed =
     (case sel of
        None \<Rightarrow> (ShowInfo, ed)
      | Some old \<Rightarrow>
          (case map_of (index ed) old of
             None \<Rightarrow> (Silent, ed)
           | Some idx \<Rightarrow>
               (case collect_form form schema [] of
                  None \<Rightarrow> (Raised, ed)
                | Some rec \<Rightarrow>
                    if missing_required repr schema rec then (ShowError, ed)
                    else (let new_name = name_of repr rec in
                          if new_name = [] then (ShowError, ed)
                          else if new_name \<noteq> old \<and> map_of (index ed) new_name \<noteq> None
                          then (ShowError, ed)
                          else if idx < length (records ed) then
                            (Status, with_records repr ((records ed)[idx := rec]))
                          else (Raised, ed)))))"

text \<open>
  \<open>import_csv\<close>. The three radio buttons of \<open>ask_merge_strategy\<close> are the policies;
  \<open>chosen\<close> is the column picked in the dialog that opens when no column is called
  \<open>name\<close>. A CSV row maps headers to cells, all strings.
\<close>

datatype policy = Overwrite | Skip | Rename

record counts =
  added :: nat
  updated :: nat
  skipped :: nat
  renamed :: nat

definition csv_cell :: "ustr dict \<Rightarrow> ustr \<Rightarrow> ustr" where
  "csv_cell r k = (case map_of r k of None \<Rightarrow> [] | Some c \<Rightarrow> c)"

definition candidate :: "ustr list \<Rightarrow> ustr dict \<Rightarrow> ustr \<Rightarrow> item" where
  "candidate field_keys r nm =
     AList.update key_name (JStr nm)
       (fold (\<lambda>k rec. AList.update k (JStr (csv_cell r k)) rec) field_keys [])"

definition import_row ::
  "(json \<Rightarrow> ustr) \<Rightarrow> ustr list \<Rightarrow> ustr \<Rightarrow> policy \<Rightarrow> ustr dict \<Rightarrow> editor \<times> counts
     \<Rightarrow> editor + editor \<times> counts" where
  "import_row repr field_keys name_col st r s =
     (let ed = fst s; c = snd s; nm = strip (csv_cell r name_col) in
      if nm = [] then Inr (ed, c)
      else (let rec = candidate field_keys r nm in
            case map_of (index ed) nm of
              Some idx \<Rightarrow>
                (case st of
                   Skip \<Rightarrow> Inr (ed, c\<lparr>skipped := skipped c + 1\<rparr>)
                 | Overwrite \<Rightarrow>
                     if idx < length (records ed) then
                       Inr (with_records repr ((records ed)[idx := rec]),
                            c\<lparr>updated := updated c + 1\<rparr>)
                     else Inl ed
                 | Rename \<Rightarrow>
                     Inr (with_records repr
                            (records ed
                             @ [AList.update key_name (JStr (rename_name (index ed) nm)) rec]),
                          c\<lparr>renamed := renamed c + 1\<rparr>))
            | None \<Rightarrow>
                Inr (with_records repr (records ed @ [rec]), c\<lparr>added := added c + 1\<rparr>)))"

fun import_rows ::
  "(json \<Rightarrow> ustr) \<Rightarrow> ustr list \<Rightarrow> ustr \<Rightarrow> policy \<Rightarrow> ustr dict list \<Rightarrow> editor \<times> counts
     \<Rightarrow> editor + editor \<times> counts" where
  "import_rows repr field_keys name_col st [] s = Inr s"
| "import_rows repr field_keys name_col st (r # rs) s =
     (case import_row repr field_keys name_col st r s of
        Inl ed \<Rightarrow> Inl ed
      | Inr s' \<Rightarrow> import_rows repr field_keys name_col st rs s')"

definition all_headers :: "ustr dict list \<Rightarrow> ustr list" where
  "all_headers rows =
     fold (\<lambda>r hs. fold (\<lambda>k hs. if k \<notin> set hs then hs @ [k] else hs) (map fst r) hs) rows []"

definition import_csv ::
  "(json \<Rightarrow> ustr) \<Rightarrow> field list \<Rightarrow> ustr dict list \<Rightarrow> ustr \<Rightarrow> policy \<Rightarrow> editor
     \<Rightarrow> feedback \<times> editor \<times> counts" where
  "import_csv repr schema rows chosen st ed =
     (let zero = \<lparr>added = 0, updated = 0, skipped = 0, renamed = 0\<rparr> in
      if rows = [] then (ShowWarning, ed, zero)
      else (let name_col = (if key_name \<in> set (all_headers rows) then key_name else strip chosen) in
            if name_col = [] then (ShowError, ed, zero)
            else (case import_rows repr (map key schema) name_col st rows (ed, zero) of
                    Inl ed' \<Rightarrow> (Raised, ed', zero)
                  | Inr s \<Rightarrow> (ShowInfo, fst s, snd s))))"

text \<open>The schema of the one tab the program has (\<open>SCHEMAS\<close>, U+79CD U+65CF).\<close>

definition races_fields :: "field list" where
  "races_fields =
     [\<lparr>key = u ''name'', ftype = u ''str'', default = None, required = True\<rparr>,
      \<lparr>key = u ''desc'', ftype = u ''text'', default = None, required = False\<rparr>,
      \<lparr>key = u ''speed'', ftype = u ''int'', default = Some (JInt 30), required = False\<rparr>,
      \<lparr>key = u ''size'', ftype = u ''enum'', default = Some (JStr (u ''Medium'')),
        required = False\<rparr>,
      \<lparr>key = u ''darkvision'', ftype = u ''int'', default = Some (JInt 0), required = False\<rparr>,
      \<lparr>key = u ''languages'', ftype = u ''str'', default = None, required = False\<rparr>,
      \<lparr>key = u ''traits'', ftype = u ''text'', default = None, required = False\<rparr>]"

section \<open>The builtins on the inputs of the examples\<close>

text \<open>
  \<open>json.loads\<close>, \<open>json.dumps\<close> and \<open>repr\<close> are parameters of the model. The
  closed examples below need them at a few inputs only: \<open>sample_repr\<close> is \<open>repr\<close>
  on \<open>None\<close>, booleans and integers (no example calls it on anything else),
  \<open>sample_dumps\<close> is \<open>json.dumps\<close> on the two documents the examples save, and
  \<open>sample_loads\<close> is \<open>json.loads\<close> on the texts the examples read; every other
  text the examples parse is not JSON.
\<close>

definition sample_repr :: "json \<Rightarrow> ustr" where
  "sample_repr v =
     (case v of
        JNull \<Rightarrow> u ''None''
      | JBool b \<Rightarrow> (if b then u ''True'' else u ''False'')
      | JInt i \<Rightarrow> (if i < 0 then u ''-'' @ str_nat (nat (- i)) else str_nat (nat i))
      | _ \<Rightarrow> [])"

text \<open>
  What \<open>json.dumps(\<dots>, indent=2, ensure_ascii=False)\<close> gives for the two records
  \<open>{"name": "A", "x": 1}\<close> and \<open>{"name": "B"}\<close>, and for the one record whose name
  is the lone surrogate U+D800 (the string that \<open>json.loads\<close> reads from the escape
  for U+D800): the surrogate stands in the text as it is.
\<close>

definition text_saved :: ustr where
  \<open>text_saved =
     u ''['' @ [10] @ u ''  {'' @ [10] @ u ''    "name": "A",'' @ [10] @ u ''    "x": 1'' @ [10]
     @ u ''  },'' @ [10] @ u ''  {'' @ [10] @ u ''    "name": "B"'' @ [10] @ u ''  }'' @ [10]
     @ u '']''\<close>



definition sample_loads :: "ustr \<Rightarrow> json option" where
  \<open>sample_loads t =
     (if t = u ''[""]'' then Some (JArr [JStr []])
      else if t = u ''""'' then Some (JStr [])
      else if t = u ''{"name":"A"}'' then Some (JObj [(u ''name'', JStr (u ''A''))])
      else if t = u ''{"name":"B"}'' then Some (JObj [(u ''name'', JStr (u ''B''))])
      else if t = u ''[{"name":"A","x":1},{"name":"A","x":2}]'' then
        Some (JArr [JObj [(u ''name'', JStr (u ''A'')), (u ''x'', JInt 1)],
                    JObj [(u ''name'', JStr (u ''A'')), (u ''x'', JInt 2)]])
      else if t = text_saved then
        Some (JArr [JObj [(u ''name'', JStr (u ''A'')), (u ''x'', JInt 1)],
                    JObj [(u ''name'', JStr (u ''B''))]])
      else None)\<close>

text \<open>The texts of the examples: the list \<open>[""]\<close> and two lines that each hold \<open>""\<close>.\<close>

definition text_empty_string_list :: ustr where
  \<open>text_empty_string_list = u ''[""]''\<close>

definition text_two_empty_strings :: ustr where
  \<open>text_two_empty_strings = u ''""'' @ [10] @ u ''""''\<close>

text \<open>
  The position \<open>i\<close> holds the first record of its trimmed name, among the names
  that are not blank and not in \<open>seen\<close> already.
\<close>

definition first_of_name :: "(json \<Rightarrow> ustr) \<Rightarrow> ustr set \<Rightarrow> item list \<Rightarrow> nat \<Rightarrow> bool" where
  "first_of_name repr seen rs i \<longleftrightarrow>
     name_of repr (rs ! i) \<noteq> [] \<and> name_of repr (rs ! i) \<notin> seen
     \<and> (\<forall>j<i. name_of repr (rs ! j) \<noteq> name_of repr (rs ! i))"

text \<open>Records of the examples; the name of \<open>rec_blank\<close> is one space.\<close>

definition rec_A1 :: item where
  "rec_A1 = [(u ''name'', JStr (u ''A'')), (u ''x'', JInt 1)]"

definition rec_A2 :: item where
  "rec_A2 = [(u ''name'', JStr (u ''A'')), (u ''x'', JInt 2)]"

definition rec_blank :: item where
  "rec_blank = [(u ''name'', JStr [32])]"

definition rec_A_padded :: item where
  "rec_A_padded = [(u ''name'', JStr (u '' A ''))]"

text \<open>The three lines of the JSON-Lines example, the middle one not JSON.\<close>

definition text_jsonl_bad_line :: ustr where
  \<open>text_jsonl_bad_line = u ''{"name":"A"}'' @ [10] @ u ''NOT JSON'' @ [10] @ u ''{"name":"B"}''\<close>

text \<open>What one line of a JSON-Lines text contributes to the result.\<close>

definition line_records ::
  "(json \<Rightarrow> ustr option \<Rightarrow> item option) \<Rightarrow> (ustr \<Rightarrow> json option) \<Rightarrow> ustr \<Rightarrow> item list" where
  "line_records norm loads line =
     (if strip line = [] then []
      else (case loads (strip line) of
              None \<Rightarrow> []
            | Some obj \<Rightarrow> (case norm obj None of None \<Rightarrow> [] | Some d \<Rightarrow> if d = [] then [] else [d])))"

text \<open>
  What the copy loop stores for one source entry: the trimmed key, and the value with
  \<open>None\<close> replaced by the empty string. \<open>first_truthy a b c\<close> is \<open>a or b or c\<close>.
\<close>

definition copied :: "ustr \<times> json \<Rightarrow> ustr \<times> json" where
  "copied kv = (strip (fst kv), if snd kv \<noteq> JNull then snd kv else JStr [])"

definition first_truthy :: "json \<Rightarrow> json \<Rightarrow> json \<Rightarrow> json" where
  "first_truthy a b c = (if truthy a then a else if truthy b then b else c)"

text \<open>A parsed object whose keys have no surrounding whitespace (keys of a dict are distinct).\<close>

definition trimmed_keys :: "(ustr \<times> json) list \<Rightarrow> bool" where
  "trimmed_keys kvs \<longleftrightarrow> distinct (map fst kvs) \<and> list_all (\<lambda>kv. strip (fst kv) = fst kv) kvs"

text \<open>
  Objects of the examples: two keys that trim to \<open>a\<close>; the key U+540D U+79F0 and a
  null value; the same key with a space on each side.
\<close>

definition kvs_collide :: "(ustr \<times> json) list" where
  "kvs_collide = [(u ''a'', JInt 1), (u '' a'', JInt 2), (u ''name'', JStr (u ''N''))]"

definition kvs_mingcheng :: "(ustr \<times> json) list" where
  "kvs_mingcheng = [(key_mingcheng, JStr (u ''Elf'')), (u ''desc'', JNull)]"

definition kvs_padded :: "(ustr \<times> json) list" where
  "kvs_padded = [([32, 21517, 31216, 32], JStr (u ''X''))]"

text \<open>
  Parsed CSV files of the examples: a second row of blank cells, and a second row
  that describes the columns.
\<close>

definition csv_blank_second :: "ustr list list" where
  "csv_blank_second = [[u ''name'', u ''desc''], [[], []], [u ''Elf'', u ''tall'']]"

definition csv_described :: "ustr list list" where
  "csv_described = [[u ''name'', u ''desc''], [u ''Name'', []], [u ''Elf'', u ''tall'']]"

text \<open>One step of \<open>rebuild_index\<close>, for a position and its record.\<close>

definition index_step :: "(json \<Rightarrow> ustr) \<Rightarrow> nat \<times> item \<Rightarrow> nat dict \<Rightarrow> nat dict" where
  "index_step repr = (\<lambda>(i, r) idx. let nm = name_of repr r in
      if nm \<noteq> [] \<and> map_of idx nm = None then AList.update nm i idx else idx)"

text \<open>
  The state the editor keeps between two callbacks: the index is the one
  \<open>rebuild_index\<close> builds from the records (every operation that changes the records
  rebuilds it), and the trimmed names of the records are pairwise distinct.
\<close>

definition index_ok :: "(json \<Rightarrow> ustr) \<Rightarrow> editor \<Rightarrow> bool" where
  "index_ok repr ed \<longleftrightarrow> index ed = rebuild_index repr (records ed)"

definition editor_ok :: "(json \<Rightarrow> ustr) \<Rightarrow> editor \<Rightarrow> bool" where
  "editor_ok repr ed \<longleftrightarrow> index_ok repr ed \<and> distinct (map (name_of repr) (records ed))"

text \<open>Records, CSV rows and counters of the examples.\<close>

definition rec_A :: item where
  "rec_A = [(u ''name'', JStr (u ''A''))]"

definition rec_B :: item where
  "rec_B = [(u ''name'', JStr (u ''B''))]"

definition row_A :: "ustr dict" where
  "row_A = [(u ''name'', u ''A'')]"

definition row_A9 :: "ustr dict" where
  "row_A9 = [(u ''name'', u '' A''), (u ''x'', u ''9'')]"

definition row_blank :: "ustr dict" where
  "row_blank = [(u ''name'', u ''  ''), (u ''x'', u ''7'')]"

definition zero_counts :: counts where
  "zero_counts = \<lparr>added = 0, updated = 0, skipped = 0, renamed = 0\<rparr>"


text \<open>A record with a non-empty name, or the record that wraps the empty string.\<close>

definition named_or_blank :: "item \<Rightarrow> bool" where
  "named_or_blank r \<longleftrightarrow> has_name r \<or> r = [(key_name, JStr [])]"



section \<open>Basic facts\<close>

lemma u_eq_iff: "u a = u b \<longleftrightarrow> a = b"
  by (simp add: u_def inj_map_eq_map inj_on_def)

lemma has_nameI: "truthy (dict_get r key_name) \<Longrightarrow> has_name r"
  by (cases "map_of r key_name") (simp_all add: has_name_def dict_get_def)

lemma norm_one_truthy_name:
  "norm_one repr v fb = Some d \<Longrightarrow> v \<noteq> JStr [] \<Longrightarrow> truthy (dict_get d key_name)"
  by (cases v) (auto simp: norm_one_def Let_def dict_get_def key_name_def u_def
                     split: if_splits)

lemma normalize_record_truthy_name:
  "normalize_record repr v fb = Some d \<Longrightarrow> v \<noteq> JStr [] \<Longrightarrow>
     truthy (dict_get d key_name)"
  by (cases v) (auto simp: normalize_record_def Let_def dict_get_def key_name_def u_def
                     split: if_splits)

lemma u_Nil_iff: "u s = [] \<longleftrightarrow> s = []"
  by (simp add: u_def)

section \<open>Properties of the program\<close>

subsection \<open>C1: the name of a loaded record\<close>

lemma text_empty_string_list_facts:
  "strip text_empty_string_list \<noteq> []"
  "text_empty_string_list \<noteq> []"
  "sample_loads text_empty_string_list = Some (JArr [JStr []])"
  by (simp_all add: text_empty_string_list_def u_def strip_def is_space_def sample_loads_def
        text_saved_def)

lemma text_two_empty_strings_facts:
  "strip text_two_empty_strings \<noteq> []"
  "text_two_empty_strings \<noteq> []"
  "sample_loads text_two_empty_strings = None"
  \<open>splitlines text_two_empty_strings = [u ''""'', u ''""'']\<close>
  \<open>strip (u ''""'') = u ''""''\<close>
  \<open>sample_loads (u ''""'') = Some (JStr [])\<close>
  by (simp_all add: text_two_empty_strings_def u_def strip_def is_space_def sample_loads_def
        text_saved_def splitlines_def is_linebreak_def)

lemma norm_one_named: "norm_one repr v fb = Some d \<Longrightarrow> named_or_blank d"
proof (cases "v = JStr []")
  case True
  assume "norm_one repr v fb = Some d"
  with True show ?thesis
    by (auto simp: norm_one_def named_or_blank_def)
next
  case False
  assume "norm_one repr v fb = Some d"
  with False show ?thesis
    by (simp add: named_or_blank_def has_nameI norm_one_truthy_name)
qed

lemma normalize_record_named: "normalize_record repr v fb = Some d \<Longrightarrow> named_or_blank d"
proof (cases "v = JStr []")
  case True
  assume "normalize_record repr v fb = Some d"
  with True show ?thesis
    by (auto simp: normalize_record_def named_or_blank_def)
next
  case False
  assume "normalize_record repr v fb = Some d"
  with False show ?thesis
    by (simp add: named_or_blank_def has_nameI normalize_record_truthy_name)
qed

lemma keep_named:
  "list_all named_or_blank out \<Longrightarrow> (\<And>d. x = Some d \<Longrightarrow> named_or_blank d) \<Longrightarrow>
     list_all named_or_blank (keep x out)"
  by (cases x) (simp_all add: keep_def)

lemma fold_named:
  assumes "\<And>x acc. list_all named_or_blank acc \<Longrightarrow> list_all named_or_blank (f x acc)"
  shows "list_all named_or_blank acc \<Longrightarrow> list_all named_or_blank (fold f xs acc)"
  by (induction xs arbitrary: acc) (simp_all add: assms)

lemma records_named:
  assumes "\<And>v fb d. norm v fb = Some d \<Longrightarrow> named_or_blank d"
  shows "list_all named_or_blank (jsonl_records norm loads text)"
    and "list_all named_or_blank (document_records norm data)"
proof -
  have k: "list_all named_or_blank (keep (norm v fb) acc)"
    if "list_all named_or_blank acc" for v fb acc
    using that assms by (rule keep_named)
  show "list_all named_or_blank (jsonl_records norm loads text)"
    unfolding jsonl_records_def
    by (rule fold_named) (auto simp: jsonl_line_def Let_def k split: option.splits)
  have t: "list_all named_or_blank (fold (table_entry norm) kvs [])" for kvs
    by (rule fold_named) (auto simp: table_entry_def k split: json.splits)
  have l: "list_all named_or_blank (fold (\<lambda>it out. keep (norm it None) out) xs [])" for xs
    by (rule fold_named) (simp_all add: k)
  show "list_all named_or_blank (document_records norm data)"
    by (cases data) (simp_all add: document_records_def t l split: json.splits)
qed

lemma read_json_list_named: "list_all named_or_blank (read_json_list loads repr file)"
  by (simp add: read_json_list_def read_json_text_def records_named norm_one_named
      split: option.splits)

text \<open>
  C1. Every record that \<open>read_json_list\<close> returns, and every record of
  \<open>read_json_records\<close> before its de-duplication, should have a non-empty name.
  The dict branch of the normaliser rejects a falsy name; the string branch wraps the
  string unchecked. So the JSON list \<open>[""]\<close> gives one record whose name is the empty
  string, in \<open>read_json_list\<close> and in the records \<open>read_json_records\<close> collects, and a
  file of two lines \<open>""\<close> gives two such records, which \<open>read_json_records\<close> returns
  as they are. (Every other record that is returned has a non-empty name:
  \<open>read_json_list_named\<close>.)
\<close>

theorem read_json_list_empty_name:
  "read_json_list sample_loads sample_repr (Some [Some text_empty_string_list])
     = [[(key_name, JStr [])]]
   \<and> document_records (normalize_record sample_repr) (JArr [JStr []]) = [[(key_name, JStr [])]]
   \<and> read_json_records sample_loads sample_repr (Some [Some text_two_empty_strings])
       = [[(key_name, JStr [])], [(key_name, JStr [])]]
   \<and> \<not> has_name [(key_name, JStr [])]"
  by (simp add: read_json_list_def read_json_text_def read_json_records_def
        text_empty_string_list_facts text_two_empty_strings_facts
        document_records_def jsonl_records_def jsonl_line_def keep_def
        norm_one_def normalize_record_def has_name_def dict_get_def Let_def u_Nil_iff)

subsection \<open>C4: de-duplication by trimmed name\<close>

lemma upt_Cons_shift: "[0..<Suc n] = 0 # map Suc [0..<n]"
  by (simp add: upt_conv_Cons map_Suc_upt del: upt_Suc)

lemma first_of_name_0: "first_of_name repr seen (r # rs) 0 \<longleftrightarrow> name_of repr r \<noteq> [] \<and> name_of repr r \<notin> seen"
  by (simp add: first_of_name_def)

lemma first_of_name_Suc:
  "first_of_name repr seen (r # rs) (Suc i) \<longleftrightarrow>
     name_of repr r \<noteq> name_of repr (rs ! i) \<and> first_of_name repr seen rs i"
  by (auto simp: first_of_name_def All_less_Suc2)

lemma first_of_name_skip:
  "name_of repr r = [] \<or> name_of repr r \<in> seen \<Longrightarrow>
     (name_of repr r \<noteq> name_of repr (rs ! i) \<and> first_of_name repr seen rs i) = first_of_name repr seen rs i"
  by (auto simp: first_of_name_def)

lemma first_of_name_insert:
  "(name_of repr r \<noteq> name_of repr (rs ! i) \<and> first_of_name repr seen rs i) = first_of_name repr (insert (name_of repr r) seen) rs i"
  by (auto simp: first_of_name_def)

lemma firsts_Cons:
  "map ((!) (r # rs)) (filter (first_of_name repr seen (r # rs)) [0..<length (r # rs)])
     = (if name_of repr r \<noteq> [] \<and> name_of repr r \<notin> seen then [r] else [])
       @ map ((!) rs)
           (filter (\<lambda>i. name_of repr r \<noteq> name_of repr (rs ! i) \<and> first_of_name repr seen rs i)
              [0..<length rs])"
proof -
  have "[0..<length (r # rs)] = 0 # map Suc [0..<length rs]"
    using upt_Cons_shift [of "length rs"] by simp
  then show ?thesis
    by (simp add: filter_map comp_def first_of_name_Suc first_of_name_0 del: upt_Suc)
qed

lemma dedup_loop_char:
  "dedup_loop repr seen out rs
     = out @ map ((!) rs) (filter (first_of_name repr seen rs) [0..<length rs])"
proof (induction rs arbitrary: seen out)
  case Nil
  show ?case by simp
next
  case (Cons r rs)
  show ?case
  proof (cases "name_of repr r = [] \<or> name_of repr r \<in> seen")
    case True
    then have "dedup_loop repr seen out (r # rs) = dedup_loop repr seen out rs"
      by (auto simp: Let_def)
    also have "\<dots> = out @ map ((!) rs) (filter (first_of_name repr seen rs) [0..<length rs])"
      by (rule Cons.IH)
    also have "\<dots> = out @ map ((!) (r # rs))
        (filter (first_of_name repr seen (r # rs)) [0..<length (r # rs)])"
      using True unfolding firsts_Cons by (auto simp: first_of_name_skip)
    finally show ?thesis .
  next
    case False
    then have "dedup_loop repr seen out (r # rs)
        = dedup_loop repr (insert (name_of repr r) seen) (out @ [r]) rs"
      by (auto simp: Let_def)
    also have "\<dots> = (out @ [r]) @ map ((!) rs)
        (filter (first_of_name repr (insert (name_of repr r) seen) rs) [0..<length rs])"
      by (rule Cons.IH)
    also have "\<dots> = out @ map ((!) (r # rs))
        (filter (first_of_name repr seen (r # rs)) [0..<length (r # rs)])"
      using False unfolding firsts_Cons by (auto simp: first_of_name_insert)
    finally show ?thesis .
  qed
qed

lemma example_names:
  "name_of repr rec_A1 = u ''A''" "name_of repr rec_A2 = u ''A''"
  "name_of repr rec_blank = []" "name_of repr rec_A_padded = u ''A''"
  by (simp_all add: rec_A1_def rec_A2_def rec_blank_def rec_A_padded_def name_of_def
        dict_get_str_def py_str_def key_name_def u_def strip_def is_space_def)

lemma example_normalized:
  "norm_one repr (JObj rec_A1) None = Some rec_A1"
  "norm_one repr (JObj rec_A2) None = Some rec_A2"
  "norm_one repr (JObj rec_blank) None = Some rec_blank"
  by (simp_all add: rec_A1_def rec_A2_def rec_blank_def norm_one_def copy_entry_def Let_def
        dict_get_def key_name_def u_def strip_def is_space_def)

text \<open>
  C4, as stated, fails: the loop skips a record whose trimmed name is empty
  (\<open>if not nm: continue\<close>) before it looks at \<open>seen\<close>. The record
  \<open>{"name": " "}\<close> is normalised to itself, it is the first record of its trimmed
  name, and the de-duplication drops it.
\<close>

theorem dedup_drops_blank_name:
  "document_records (norm_one sample_repr) (JArr [JObj rec_blank]) = [rec_blank]
   \<and> dedup sample_repr [rec_blank] = []"
  by (simp add: document_records_def keep_def example_normalized dedup_def example_names)
    (simp add: rec_blank_def)

text \<open>
  C4, amended. The de-duplication keeps, in the order of the input, exactly the
  records whose trimmed name is not empty and differs from the trimmed name of every
  earlier record (strings compared as they are, so case matters); every other record
  is dropped. Normalising and de-duplicating
  \<open>[{"name":"A","x":1},{"name":"A","x":2}]\<close> leaves the one record with \<open>x = 1\<close>.
\<close>

theorem dedup_first_per_name:
  "dedup repr rs =
     map ((!) rs)
       (filter (\<lambda>i. name_of repr (rs ! i) \<noteq> []
                    \<and> (\<forall>j<i. name_of repr (rs ! j) \<noteq> name_of repr (rs ! i)))
          [0..<length rs])
   \<and> dedup repr (document_records (norm_one repr) (JArr [JObj rec_A1, JObj rec_A2])) = [rec_A1]"
proof
  show "dedup repr rs =
     map ((!) rs)
       (filter (\<lambda>i. name_of repr (rs ! i) \<noteq> []
                    \<and> (\<forall>j<i. name_of repr (rs ! j) \<noteq> name_of repr (rs ! i)))
          [0..<length rs])"
    by (simp add: dedup_def dedup_loop_char first_of_name_def [abs_def])
  have "document_records (norm_one repr) (JArr [JObj rec_A1, JObj rec_A2]) = [rec_A1, rec_A2]"
    by (simp add: document_records_def keep_def example_normalized)
      (simp add: rec_A1_def rec_A2_def)
  then show "dedup repr (document_records (norm_one repr) (JArr [JObj rec_A1, JObj rec_A2]))
      = [rec_A1]"
    by (simp add: dedup_def example_names u_def)
qed

theorem dedup_first_per_name_witness:
  "dedup sample_repr [rec_blank, rec_A_padded, rec_A2, rec_A1] = [rec_A_padded]"
proof -
  have "[0..<length [rec_blank, rec_A_padded, rec_A2, rec_A1]] = [0, 1, 2, 3]"
    by (simp add: upt_rec)
  with dedup_first_per_name [of sample_repr "[rec_blank, rec_A_padded, rec_A2, rec_A1]"]
  show ?thesis
    by (simp add: example_names u_def All_less_Suc numeral_2_eq_2 numeral_3_eq_3)
qed

subsection \<open>C5: the JSON-Lines fallback\<close>

lemma jsonl_line_eq: "jsonl_line norm loads line arr = arr @ line_records norm loads line"
  by (simp add: jsonl_line_def line_records_def keep_def Let_def split: option.splits)

lemma fold_jsonl_line:
  "fold (jsonl_line norm loads) ls arr = arr @ concat (map (line_records norm loads) ls)"
  by (induction ls arbitrary: arr) (simp_all add: jsonl_line_eq)

lemma text_jsonl_bad_line_facts:
  "strip text_jsonl_bad_line \<noteq> []"
  "text_jsonl_bad_line \<noteq> []"
  "sample_loads text_jsonl_bad_line = None"
  \<open>splitlines text_jsonl_bad_line = [u ''{"name":"A"}'', u ''NOT JSON'', u ''{"name":"B"}'']\<close>
  by (simp_all add: text_jsonl_bad_line_def u_def strip_def is_space_def sample_loads_def text_saved_def
        splitlines_def is_linebreak_def)

lemma jsonl_lines_facts:
  \<open>line_records (norm_one repr) sample_loads (u ''{"name":"A"}'') = [[(u ''name'', JStr (u ''A''))]]\<close>
  \<open>line_records (norm_one repr) sample_loads (u ''NOT JSON'') = []\<close>
  \<open>line_records (norm_one repr) sample_loads (u ''{"name":"B"}'') = [[(u ''name'', JStr (u ''B''))]]\<close>
  by (simp_all add: line_records_def u_def strip_def is_space_def sample_loads_def text_saved_def
        norm_one_def copy_entry_def Let_def dict_get_def key_name_def)

lemma try_read_text_nonempty: "try_read_text encs = Some t \<Longrightarrow> t \<noteq> []"
  by (induction encs rule: try_read_text.induct) (auto split: if_splits)

text \<open>
  C5. When \<open>json.loads\<close> raises on the whole text, \<open>read_json_list\<close> returns the
  concatenation, over the lines of the text in order, of what each line contributes
  by itself: nothing for a blank line, for a line that does not parse and for a line
  whose value the normaliser rejects, and the one normalised record otherwise. Every
  raise of the parser is caught, so the read returns a list whatever the lines hold.
  On the three lines \<open>{"name":"A"}\<close>, \<open>NOT JSON\<close>, \<open>{"name":"B"}\<close> the result
  is the records named A and B.
\<close>

theorem jsonl_fallback:
  "(try_read_text encs = Some text \<and> loads text = None \<longrightarrow>
      read_json_list loads repr (Some encs)
        = concat (map (line_records (norm_one repr) loads) (splitlines text)))
   \<and> read_json_list sample_loads repr (Some [Some text_jsonl_bad_line])
       = [[(u ''name'', JStr (u ''A''))], [(u ''name'', JStr (u ''B''))]]"
proof (intro conjI impI)
  assume a: "try_read_text encs = Some text \<and> loads text = None"
  then have "text \<noteq> []"
    by (auto dest: try_read_text_nonempty)
  with a show "read_json_list loads repr (Some encs)
      = concat (map (line_records (norm_one repr) loads) (splitlines text))"
    by (simp add: read_json_list_def read_json_text_def jsonl_records_def fold_jsonl_line)
next
  show "read_json_list sample_loads repr (Some [Some text_jsonl_bad_line])
      = [[(u ''name'', JStr (u ''A''))], [(u ''name'', JStr (u ''B''))]]"
    by (simp add: read_json_list_def read_json_text_def jsonl_records_def jsonl_line_eq
          text_jsonl_bad_line_facts jsonl_lines_facts)
qed

theorem jsonl_fallback_witness:
  "try_read_text [None, Some text_jsonl_bad_line] = Some text_jsonl_bad_line
   \<and> sample_loads text_jsonl_bad_line = None
   \<and> read_json_list sample_loads sample_repr (Some [None, Some text_jsonl_bad_line])
       = [[(u ''name'', JStr (u ''A''))], [(u ''name'', JStr (u ''B''))]]"
  using jsonl_fallback [of "[None, Some text_jsonl_bad_line]" text_jsonl_bad_line
      sample_loads sample_repr]
  by (simp add: text_jsonl_bad_line_facts jsonl_lines_facts)

subsection \<open>C3: normalising one mapping\<close>

lemma update_absent: "map_of al k = None \<Longrightarrow> AList.update k v al = al @ [(k, v)]"
  by (induction al) (auto split: if_splits)

lemma map_of_copy_entry:
  "map_of (copy_entry kv acc) kk =
     (if fst (copied kv) \<noteq> [] \<and> kk = fst (copied kv) then Some (snd (copied kv))
      else map_of acc kk)"
  by (simp add: copy_entry_def copied_def Let_def update_conv')

lemma map_of_copy_entries:
  "map_of (fold copy_entry kvs acc) kk =
     (if kk = [] then map_of acc kk
      else (case map_of (rev (map copied kvs)) kk of None \<Rightarrow> map_of acc kk | Some v \<Rightarrow> Some v))"
proof (induction kvs arbitrary: acc)
  case Nil
  show ?case by simp
next
  case (Cons kv kvs)
  show ?case
    by (cases "copied kv")
      (auto simp: Cons.IH map_of_copy_entry map_add_def split: option.splits)
qed

lemma distinct_copy_entry: "distinct (map fst acc) \<Longrightarrow> distinct (map fst (copy_entry kv acc))"
  by (simp add: copy_entry_def Let_def distinct_update)

lemma distinct_copy_entries:
  "distinct (map fst acc) \<Longrightarrow> distinct (map fst (fold copy_entry kvs acc))"
  by (induction kvs arbitrary: acc) (simp_all add: distinct_copy_entry)

lemma py_or_first_truthy: "py_or (py_or a b) c = first_truthy a b c"
  by (simp add: py_or_def first_truthy_def)

lemma dict_get_appended: "map_of al k = None \<Longrightarrow> dict_get (al @ [(k, v)]) k = v"
  by (simp add: dict_get_def map_add_def)

lemma norm_one_mapping_eq:
  "norm_one repr (JObj kvs) fb =
     (let out = fold copy_entry kvs [];
          nm = first_truthy (dict_get out key_mingcheng) (dict_get out key_title) (opt_str fb)
      in if map_of out key_name \<noteq> None
         then (if truthy (dict_get out key_name) then Some out else None)
         else if nm = JNull \<or> py_str repr nm = [] then None
         else Some (out @ [(key_name, JStr (py_str repr nm))]))"
proof (cases "map_of (fold copy_entry kvs []) key_name")
  case None
  then have "\<not> truthy (dict_get (fold copy_entry kvs []) key_name)"
    by (simp add: dict_get_def)
  with None show ?thesis
    by (simp add: norm_one_def Let_def py_or_first_truthy update_absent dict_get_appended)
next
  case (Some v)
  then show ?thesis
    by (simp add: norm_one_def Let_def)
qed

lemma keys_nonempty:
  "key_name \<noteq> []" "key_title \<noteq> []" "key_mingcheng \<noteq> []" "key_items \<noteq> []" "key_value \<noteq> []"
  by (simp_all add: key_name_def key_title_def key_mingcheng_def key_items_def key_value_def
        u_def)

lemma copied_trimmed:
  "list_all (\<lambda>kv. strip (fst kv) = fst kv) kvs \<Longrightarrow>
     map copied kvs = map (\<lambda>(k, v). (k, if v \<noteq> JNull then v else JStr [])) kvs"
  by (induction kvs) (auto simp: copied_def)

lemma map_of_copy_entries_trimmed:
  assumes "trimmed_keys kvs" and "k \<noteq> []"
  shows "map_of (fold copy_entry kvs []) k
           = map_option (\<lambda>v. if v \<noteq> JNull then v else JStr []) (map_of kvs k)"
proof -
  let ?cs = "map (\<lambda>(k, v). (k, if v \<noteq> JNull then v else JStr [])) kvs"
  from assms have cp: "map copied kvs = ?cs" and d: "distinct (map fst kvs)"
    by (simp_all add: trimmed_keys_def copied_trimmed)
  have fst_cs: "map fst ?cs = map fst kvs"
    by (induction kvs) auto
  have "map_of (rev ?cs) = map_of ?cs"
  proof (subst map_of_inject_set)
    show "distinct (map fst (rev ?cs))"
      using d by (simp only: rev_map [symmetric] fst_cs distinct_rev)
    show "distinct (map fst ?cs)"
      using d by (simp only: fst_cs)
    show "set (rev ?cs) = set ?cs"
      by simp
  qed
  then have "map_of (fold copy_entry kvs []) k = map_of ?cs k"
    using \<open>k \<noteq> []\<close> by (simp add: map_of_copy_entries cp split: option.splits)
  then show ?thesis
    by (simp add: map_of_map)
qed

lemma dict_get_trimmed:
  assumes "trimmed_keys kvs" and "k \<noteq> []"
  shows "truthy (dict_get (fold copy_entry kvs []) k) = truthy (dict_get kvs k)"
    and "truthy (dict_get kvs k) \<Longrightarrow> dict_get (fold copy_entry kvs []) k = dict_get kvs k"
    and "map_of (fold copy_entry kvs []) k = None \<longleftrightarrow> map_of kvs k = None"
  using map_of_copy_entries_trimmed [OF assms]
  by (auto simp: dict_get_def split: option.splits)

lemma first_truthy_cong:
  "truthy a = truthy a' \<Longrightarrow> (truthy a' \<Longrightarrow> a = a') \<Longrightarrow> truthy b = truthy b' \<Longrightarrow>
     (truthy b' \<Longrightarrow> b = b') \<Longrightarrow> first_truthy a b c = first_truthy a' b' c"
  by (auto simp: first_truthy_def)

lemma normalizers_agree_trimmed:
  assumes "trimmed_keys kvs"
  shows "normalize_record repr (JObj kvs) fb = norm_one repr (JObj kvs) fb"
proof -
  let ?out = "fold copy_entry kvs []"
  have ft: "first_truthy (dict_get ?out key_mingcheng) (dict_get ?out key_title) (opt_str fb)
      = first_truthy (dict_get kvs key_mingcheng) (dict_get kvs key_title) (opt_str fb)"
    by (rule first_truthy_cong) (simp_all add: dict_get_trimmed [OF assms] keys_nonempty)
  show ?thesis
  proof (cases "map_of kvs key_name")
    case None
    then have "map_of ?out key_name = None" "\<not> truthy (dict_get kvs key_name)"
      by (simp_all add: dict_get_trimmed [OF assms] keys_nonempty dict_get_def)
    then show ?thesis
      by (simp add: normalize_record_def norm_one_def Let_def py_or_first_truthy ft)
  next
    case (Some v)
    then obtain w where "map_of ?out key_name = Some w"
      using dict_get_trimmed(3) [OF assms keys_nonempty(1)] by auto
    then show ?thesis
      by (simp add: normalize_record_def norm_one_def Let_def)
  qed
qed

lemma normalizers_agree_other:
  "\<forall>kvs. v \<noteq> JObj kvs \<Longrightarrow> normalize_record repr v fb = norm_one repr v fb"
  by (cases v) (simp_all add: normalize_record_def norm_one_def)

lemma copy_entry_fresh:
  "map_of acc (strip (fst kv)) = None \<Longrightarrow>
     copy_entry kv acc = acc @ filter (\<lambda>e. fst e \<noteq> []) [copied kv]"
  by (simp add: copy_entry_def copied_def Let_def update_absent)

lemma copy_entries_no_collision:
  "distinct (filter (\<lambda>k. k \<noteq> []) (map (\<lambda>kv. strip (fst kv)) kvs)) \<Longrightarrow>
   list_all (\<lambda>kv. map_of acc (strip (fst kv)) = None) kvs \<Longrightarrow>
     fold copy_entry kvs acc = acc @ filter (\<lambda>e. fst e \<noteq> []) (map copied kvs)"
proof (induction kvs arbitrary: acc)
  case Nil
  show ?case by simp
next
  case (Cons kv kvs)
  let ?acc = "acc @ filter (\<lambda>e. fst e \<noteq> []) [copied kv]"
  from Cons.prems have step: "copy_entry kv acc = ?acc"
    by (simp add: copy_entry_fresh)
  have "list_all (\<lambda>kv'. map_of ?acc (strip (fst kv')) = None) kvs"
  proof (unfold list_all_iff, intro ballI)
    fix kv' assume in_kvs: "kv' \<in> set kvs"
    with Cons.prems(2) have acc: "map_of acc (strip (fst kv')) = None"
      by (simp add: list_all_iff)
    show "map_of ?acc (strip (fst kv')) = None"
    proof (cases "strip (fst kv) = []")
      case True
      with acc show ?thesis by (simp add: copied_def)
    next
      case False
      with Cons.prems(1) have "strip (fst kv) \<notin> (\<lambda>kv. strip (fst kv)) ` set kvs"
        by auto
      with in_kvs have "strip (fst kv') \<noteq> strip (fst kv)"
        by (metis (no_types, lifting) image_eqI)
      with acc show ?thesis
        by (simp add: copied_def map_add_def)
    qed
  qed
  moreover have "distinct (filter (\<lambda>k. k \<noteq> []) (map (\<lambda>kv. strip (fst kv)) kvs))"
    using Cons.prems(1) by (simp split: if_splits)
  ultimately have "fold copy_entry kvs ?acc = ?acc @ filter (\<lambda>e. fst e \<noteq> []) (map copied kvs)"
    by (rule Cons.IH [rotated])
  then show ?case
    by (simp add: step)
qed

lemmas eval_keys = key_name_def key_title_def key_mingcheng_def key_items_def key_value_def
  u_def strip_def is_space_def

text \<open>
  C3, as stated, fails where two source keys trim to the same key: the second
  assignment \<open>out[kk] = \<dots>\<close> replaces the first, so the record does not contain
  every source entry whose trimmed key is non-empty. From
  \<open>{"a": 1, " a": 2, "name": "N"}\<close> the entry \<open>a: 1\<close> is lost.
\<close>

theorem norm_one_collision:
  "norm_one sample_repr (JObj kvs_collide) None
     = Some [(u ''a'', JInt 2), (u ''name'', JStr (u ''N''))]
   \<and> (u ''a'', JInt 1) \<in> set (map copied kvs_collide)
   \<and> (u ''a'', JInt 1) \<notin> set [(u ''a'', JInt 2), (u ''name'', JStr (u ''N''))]"
  by (simp add: norm_one_def kvs_collide_def copy_entry_def copied_def Let_def dict_get_def
        eval_keys)

text \<open>
  C3, amended, for \<open>norm_one\<close> on a mapping \<open>kvs\<close> and a fallback name \<open>fb\<close>.
  The copy \<open>out\<close> is a dict whose keys are the non-empty trimmed source keys, each
  with the value (\<open>None\<close> replaced by \<open>""\<close>) of the last source entry that trims to
  it; when no two source keys share a non-empty trimmed key, \<open>out\<close> is exactly the
  list of the source entries with a non-empty trimmed key, in order. When \<open>out\<close> has
  a key \<open>name\<close> the result is \<open>out\<close> if that value is truthy and null otherwise.
  When it has none, \<open>nm\<close> is the first truthy value among \<open>out\<close>'s U+540D U+79F0
  and \<open>title\<close>, else the fallback name; the result is \<open>out\<close> with
  \<open>name = str(nm)\<close> appended, and null when \<open>nm\<close> is \<open>None\<close> or \<open>str(nm)\<close> is
  empty. \<open>_normalize_record\<close> returns the same on every mapping whose keys carry no
  surrounding whitespace; nothing is said here about the other mappings.
\<close>

theorem norm_one_mapping:
  "map_of (fold copy_entry kvs []) kk
     = (if kk = [] then None else map_of (rev (map copied kvs)) kk)
   \<and> distinct (map fst (fold copy_entry kvs []))
   \<and> (distinct (filter (\<lambda>k. k \<noteq> []) (map (\<lambda>kv. strip (fst kv)) kvs)) \<longrightarrow>
        fold copy_entry kvs [] = filter (\<lambda>e. fst e \<noteq> []) (map copied kvs))
   \<and> norm_one repr (JObj kvs) fb =
       (let out = fold copy_entry kvs [];
            nm = first_truthy (dict_get out key_mingcheng) (dict_get out key_title) (opt_str fb)
        in if map_of out key_name \<noteq> None
           then (if truthy (dict_get out key_name) then Some out else None)
           else if nm = JNull \<or> py_str repr nm = [] then None
           else Some (out @ [(key_name, JStr (py_str repr nm))]))
   \<and> (trimmed_keys kvs \<longrightarrow> normalize_record repr (JObj kvs) fb = norm_one repr (JObj kvs) fb)"
proof (intro conjI impI)
  show "map_of (fold copy_entry kvs []) kk
     = (if kk = [] then None else map_of (rev (map copied kvs)) kk)"
    by (simp add: map_of_copy_entries split: option.splits)
  show "distinct (map fst (fold copy_entry kvs []))"
    by (simp add: distinct_copy_entries)
  show "fold copy_entry kvs [] = filter (\<lambda>e. fst e \<noteq> []) (map copied kvs)"
    if "distinct (filter (\<lambda>k. k \<noteq> []) (map (\<lambda>kv. strip (fst kv)) kvs))"
    using copy_entries_no_collision [OF that, of "[]"] by (simp add: list_all_iff)
  show "trimmed_keys kvs \<Longrightarrow> normalize_record repr (JObj kvs) fb = norm_one repr (JObj kvs) fb"
    by (rule normalizers_agree_trimmed)
qed (rule norm_one_mapping_eq)

theorem norm_one_mapping_witness:
  "trimmed_keys kvs_mingcheng
   \<and> distinct (filter (\<lambda>k. k \<noteq> []) (map (\<lambda>kv. strip (fst kv)) kvs_mingcheng))
   \<and> fold copy_entry kvs_mingcheng [] = [(key_mingcheng, JStr (u ''Elf'')), (u ''desc'', JStr [])]
   \<and> normalize_record sample_repr (JObj kvs_mingcheng) None
       = Some [(key_mingcheng, JStr (u ''Elf'')), (u ''desc'', JStr []),
               (key_name, JStr (u ''Elf''))]"
proof -
  have t: "trimmed_keys kvs_mingcheng"
    by (simp add: trimmed_keys_def kvs_mingcheng_def eval_keys)
  have d: "distinct (filter (\<lambda>k. k \<noteq> []) (map (\<lambda>kv. strip (fst kv)) kvs_mingcheng))"
    by (simp add: kvs_mingcheng_def eval_keys)
  have c: "filter (\<lambda>e. fst e \<noteq> []) (map copied kvs_mingcheng)
      = [(key_mingcheng, JStr (u ''Elf'')), (u ''desc'', JStr [])]"
    by (simp add: kvs_mingcheng_def copied_def eval_keys)
  from norm_one_mapping [of kvs_mingcheng "[]" sample_repr None] t d c
  show ?thesis
    by (simp add: Let_def first_truthy_def dict_get_def py_str_def eval_keys)
qed

subsection \<open>C10: the two normalisers\<close>

text \<open>
  C10. \<open>norm_one\<close> and \<open>_normalize_record\<close> should compute the same function.
  \<open>norm_one\<close> looks the name candidates up in the copy, whose keys are trimmed;
  \<open>_normalize_record\<close> looks them up in the source mapping before trimming. On
  \<open>{" \<dots> ": "X"}\<close>, whose one key is U+540D U+79F0 with a space on each side,
  \<open>norm_one\<close> derives the name \<open>X\<close> and \<open>_normalize_record\<close> returns null.
  (They agree on every mapping with trimmed keys: \<open>normalizers_agree_trimmed\<close>.)
\<close>

theorem normalizers_differ:
  "norm_one sample_repr (JObj kvs_padded) None
     = Some [(key_mingcheng, JStr (u ''X'')), (key_name, JStr (u ''X''))]
   \<and> normalize_record sample_repr (JObj kvs_padded) None = None"
  by (simp add: norm_one_def normalize_record_def kvs_padded_def copy_entry_def Let_def
        dict_get_def py_or_def opt_str_def py_str_def eval_keys)

subsection \<open>C6: the description row of a CSV file\<close>

lemma any_nonblank_iff: "any_nonblank r \<longleftrightarrow> (\<exists>c\<in>set r. strip c \<noteq> [])"
  by (simp add: any_nonblank_def list_ex_iff)

lemma fold_csv_rows:
  "fold (\<lambda>r out. if \<not> any_nonblank r then out else out @ [f r]) rs acc
     = acc @ map f (filter any_nonblank rs)"
  by (induction rs arbitrary: acc) simp_all

lemma csv_rows_out_eq:
  "csv_rows_out rows
     = map (csv_row_dict (csv_headers rows)) (filter any_nonblank (csv_data_rows rows))"
  by (simp add: csv_rows_out_def fold_csv_rows)

text \<open>
  C6. For a parsed CSV of at least two rows: the data rows are the rows after the
  second exactly when the second row has a cell that is not blank (it is then taken
  for a description and skipped); they are the second row and the rows after it
  exactly when every cell of the second row is blank. The rows returned are the data
  rows that have a non-blank cell, each as a dict over the headers.
\<close>

theorem csv_description_row:
  assumes "2 \<le> length rows"
  shows "(csv_data_rows rows = drop 2 rows \<longleftrightarrow> (\<exists>c\<in>set (rows ! 1). strip c \<noteq> []))
    \<and> (csv_data_rows rows = rows ! 1 # drop 2 rows \<longleftrightarrow> \<not> (\<exists>c\<in>set (rows ! 1). strip c \<noteq> []))
    \<and> csv_rows_out rows
        = map (csv_row_dict (csv_headers rows))
            (filter (\<lambda>r. \<exists>c\<in>set r. strip c \<noteq> []) (csv_data_rows rows))
    \<and> (try_read_text encs = Some text \<and> first_rows parses = rows \<longrightarrow>
         read_csv_rows (Some encs) parses = csv_rows_out rows)"
proof -
  from assms have d: "drop 1 rows = rows ! 1 # drop 2 rows"
    by (metis Cons_nth_drop_Suc One_nat_def Suc_1 Suc_le_lessD)
  then have ne: "drop 1 rows \<noteq> drop 2 rows"
    by (metis d not_Cons_self2)
  from assms have "rows \<noteq> []"
    by auto
  have "read_csv_rows (Some encs) parses = csv_rows_out rows"
    if "try_read_text encs = Some text \<and> first_rows parses = rows"
  proof -
    from that have "text \<noteq> []"
      by (auto dest: try_read_text_nonempty)
    with that \<open>rows \<noteq> []\<close> show ?thesis
      by (simp add: read_csv_rows_def)
  qed
  moreover have "filter any_nonblank (csv_data_rows rows)
      = filter (\<lambda>r. \<exists>c\<in>set r. strip c \<noteq> []) (csv_data_rows rows)"
    by (simp add: any_nonblank_iff [abs_def])
  ultimately show ?thesis
    using assms d ne by (auto simp: csv_data_rows_def any_nonblank_iff csv_rows_out_eq)
qed

theorem csv_description_row_witness:
  "2 \<le> length csv_blank_second
   \<and> csv_data_rows csv_blank_second = [[[], []], [u ''Elf'', u ''tall'']]
   \<and> csv_rows_out csv_blank_second = [[(u ''name'', u ''Elf''), (u ''desc'', u ''tall'')]]
   \<and> 2 \<le> length csv_described
   \<and> csv_data_rows csv_described = [[u ''Elf'', u ''tall'']]
   \<and> csv_rows_out csv_described = [[(u ''name'', u ''Elf''), (u ''desc'', u ''tall'')]]"
proof -
  have b: "2 \<le> length csv_blank_second" "\<not> (\<exists>c\<in>set (csv_blank_second ! 1). strip c \<noteq> [])"
    "csv_blank_second ! 1 # drop 2 csv_blank_second = [[[], []], [u ''Elf'', u ''tall'']]"
    by (simp_all add: csv_blank_second_def eval_keys)
  have c: "2 \<le> length csv_described" "\<exists>c\<in>set (csv_described ! 1). strip c \<noteq> []"
    "drop 2 csv_described = [[u ''Elf'', u ''tall'']]"
    by (simp_all add: csv_described_def eval_keys)
  have h: "csv_headers csv_blank_second = [u ''name'', u ''desc'']"
    "csv_headers csv_described = [u ''name'', u ''desc'']"
    by (simp_all add: csv_headers_def csv_blank_second_def csv_described_def eval_keys)
  have r: "csv_row_dict [u ''name'', u ''desc''] [u ''Elf'', u ''tall'']
      = [(u ''name'', u ''Elf''), (u ''desc'', u ''tall'')]"
    by (simp add: csv_row_dict_def enumerate_eq_zip upt_rec eval_keys)
  from csv_description_row [OF b(1), of "[]" "[]" "[]"] b
  have 1: "csv_data_rows csv_blank_second = [[[], []], [u ''Elf'', u ''tall'']]"
    "csv_rows_out csv_blank_second = map (csv_row_dict (csv_headers csv_blank_second))
      (filter (\<lambda>r. \<exists>c\<in>set r. strip c \<noteq> []) (csv_data_rows csv_blank_second))"
    by simp_all
  from csv_description_row [OF c(1), of "[]" "[]" "[]"] c
  have 2: "csv_data_rows csv_described = [[u ''Elf'', u ''tall'']]"
    "csv_rows_out csv_described = map (csv_row_dict (csv_headers csv_described))
      (filter (\<lambda>r. \<exists>c\<in>set r. strip c \<noteq> []) (csv_data_rows csv_described))"
    by simp_all
  have s: "strip [] = []" "strip (u ''Elf'') \<noteq> []" "strip (u ''tall'') \<noteq> []"
    by (simp_all add: eval_keys)
  show ?thesis
    using b(1) c(1) by (simp add: 1 2 h s r)
qed

subsection \<open>Facts about the editor\<close>

lemma strip_Nil: "strip [] = []"
  by (simp add: strip_def)

lemma strip_fixed:
  "s \<noteq> [] \<Longrightarrow> \<not> is_space (hd s) \<Longrightarrow> \<not> is_space (last s) \<Longrightarrow> strip s = s"
proof -
  assume s: "s \<noteq> []" and h: "\<not> is_space (hd s)" and l: "\<not> is_space (last s)"
  from s h have "dropWhile is_space s = s"
    by (cases s) simp_all
  moreover from s l have "dropWhile is_space (rev s) = rev s"
    by (cases "rev s") (simp_all add: hd_rev [symmetric])
  ultimately show ?thesis
    by (simp add: strip_def)
qed

lemma last_dropWhile: "dropWhile P xs \<noteq> [] \<Longrightarrow> last (dropWhile P xs) = last xs"
  by (metis last_appendR takeWhile_dropWhile_id)

lemma strip_ends:
  assumes "strip s \<noteq> []"
  shows "\<not> is_space (hd (strip s))" and "\<not> is_space (last (strip s))"
proof -
  let ?t = "dropWhile is_space s"
  let ?w = "dropWhile is_space (rev ?t)"
  from assms have w: "?w \<noteq> []"
    by (simp add: strip_def)
  have t: "?t \<noteq> []"
  proof
    assume "?t = []"
    then have "?w = []" by (simp only: rev.simps dropWhile.simps)
    with w show False ..
  qed
  from w have "\<not> is_space (hd ?w)"
    by (rule hd_dropWhile)
  then show "\<not> is_space (last (strip s))"
    using w by (simp add: strip_def last_rev)
  have "last ?w = last (rev ?t)"
    using w by (rule last_dropWhile)
  also have "\<dots> = hd ?t"
    using t by (simp add: last_rev)
  finally have "hd (strip s) = hd ?t"
    using w by (simp add: strip_def hd_rev)
  moreover have "\<not> is_space (hd ?t)"
    using t by (rule hd_dropWhile)
  ultimately show "\<not> is_space (hd (strip s))"
    by simp
qed

lemma strip_idem: "strip (strip s) = strip s"
  by (cases "strip s = []") (simp_all add: strip_Nil strip_fixed strip_ends)

lemma strip_suffixed:
  assumes "strip s = s" and "s \<noteq> []" and "t \<noteq> []" and "\<not> is_space (last t)"
  shows "strip (s @ t) = s @ t"
proof (rule strip_fixed)
  show "s @ t \<noteq> []" using assms by simp
  from assms have "\<not> is_space (hd s)"
    using strip_ends(1) [of s] by simp
  with assms show "\<not> is_space (hd (s @ t))" by simp
  from assms show "\<not> is_space (last (s @ t))" by simp
qed

lemma rebuild_index_fold: "rebuild_index repr rs = fold (index_step repr) (enumerate 0 rs) []"
  by (simp add: rebuild_index_def index_step_def)

lemma map_of_index_step:
  "map_of (index_step repr (i, r) idx) nm =
     (case map_of idx nm of
        Some j \<Rightarrow> Some j
      | None \<Rightarrow> if nm \<noteq> [] \<and> name_of repr r = nm then Some i else None)"
  by (auto simp: index_step_def Let_def update_conv' split: option.splits)

lemma map_of_index_fold:
  "map_of (fold (index_step repr) (enumerate n rs) idx) nm =
     (case map_of idx nm of
        Some i \<Rightarrow> Some i
      | None \<Rightarrow> if nm = [] then None
                else map_option fst (find (\<lambda>ir. name_of repr (snd ir) = nm) (enumerate n rs)))"
proof (induction rs arbitrary: n idx)
  case Nil
  show ?case by (simp split: option.splits)
next
  case (Cons r rs)
  show ?case
    by (simp add: Cons.IH map_of_index_step split: option.splits)
qed

lemma find_enumerate:
  "find (\<lambda>ir. Q (snd ir)) (enumerate 0 rs) = Some (i, r) \<longleftrightarrow>
     i < length rs \<and> r = rs ! i \<and> Q (rs ! i) \<and> (\<forall>j<i. \<not> Q (rs ! j))"
proof (rule iffI)
  assume "find (\<lambda>ir. Q (snd ir)) (enumerate 0 rs) = Some (i, r)"
  then obtain k where k: "k < length (enumerate 0 rs)" "Q (snd (enumerate 0 rs ! k))"
      "(i, r) = enumerate 0 rs ! k" "\<forall>j<k. \<not> Q (snd (enumerate 0 rs ! j))"
    unfolding find_Some_iff by blast
  from k(1) have kl: "k < length rs" by simp
  with k(3) have "i = k" "r = rs ! k"
    by (simp_all add: nth_enumerate_eq)
  moreover from k(2) kl have "Q (rs ! k)"
    by (simp add: nth_enumerate_eq)
  moreover have "\<forall>j<k. \<not> Q (rs ! j)"
  proof (intro allI impI)
    fix j assume "j < k"
    with k(4) kl show "\<not> Q (rs ! j)"
      by (auto simp: nth_enumerate_eq)
  qed
  ultimately show "i < length rs \<and> r = rs ! i \<and> Q (rs ! i) \<and> (\<forall>j<i. \<not> Q (rs ! j))"
    using kl by simp
next
  assume a: "i < length rs \<and> r = rs ! i \<and> Q (rs ! i) \<and> (\<forall>j<i. \<not> Q (rs ! j))"
  have "\<exists>k<length (enumerate 0 rs). Q (snd (enumerate 0 rs ! k)) \<and> (i, r) = enumerate 0 rs ! k
      \<and> (\<forall>j<k. \<not> Q (snd (enumerate 0 rs ! j)))"
  proof (intro exI [of _ i] conjI allI impI)
    show "i < length (enumerate 0 rs)" using a by simp
    show "Q (snd (enumerate 0 rs ! i))" using a by (simp add: nth_enumerate_eq)
    show "(i, r) = enumerate 0 rs ! i" using a by (simp add: nth_enumerate_eq)
    fix j assume "j < i"
    with a show "\<not> Q (snd (enumerate 0 rs ! j))" by (simp add: nth_enumerate_eq)
  qed
  then show "find (\<lambda>ir. Q (snd ir)) (enumerate 0 rs) = Some (i, r)"
    unfolding find_Some_iff .
qed

lemma map_of_rebuild_index:
  "map_of (rebuild_index repr rs) nm = Some i \<longleftrightarrow>
     nm \<noteq> [] \<and> i < length rs \<and> name_of repr (rs ! i) = nm
     \<and> (\<forall>j<i. name_of repr (rs ! j) \<noteq> nm)"
proof -
  have "map_of (rebuild_index repr rs) nm = Some i \<longleftrightarrow>
      nm \<noteq> [] \<and> (\<exists>r. find (\<lambda>ir. name_of repr (snd ir) = nm) (enumerate 0 rs) = Some (i, r))"
    by (auto simp: rebuild_index_fold map_of_index_fold)
  also have "\<dots> \<longleftrightarrow> nm \<noteq> [] \<and> i < length rs \<and> name_of repr (rs ! i) = nm
     \<and> (\<forall>j<i. name_of repr (rs ! j) \<noteq> nm)"
    by (simp add: find_enumerate [where Q = "\<lambda>r. name_of repr r = nm"])
  finally show ?thesis .
qed

lemma rebuild_index_None:
  "map_of (rebuild_index repr rs) nm = None \<longleftrightarrow> nm = [] \<or> nm \<notin> name_of repr ` set rs"
proof -
  let ?P = "\<lambda>i. i < length rs \<and> name_of repr (rs ! i) = nm"
  have "nm \<in> name_of repr ` set rs \<longleftrightarrow> (\<exists>i. ?P i)"
  proof
    assume "nm \<in> name_of repr ` set rs"
    then obtain r where "r \<in> set rs" "nm = name_of repr r" by blast
    then show "\<exists>i. ?P i" by (auto simp: in_set_conv_nth)
  next
    assume "\<exists>i. ?P i"
    then obtain i where "i < length rs" "name_of repr (rs ! i) = nm" by blast
    then show "nm \<in> name_of repr ` set rs"
      using nth_mem [of i rs] by blast
  qed
  also have "\<dots> \<longleftrightarrow> (\<exists>i. ?P i \<and> (\<forall>j<i. \<not> ?P j))"
    by (rule exists_least_iff)
  also have "\<dots> \<longleftrightarrow> (\<exists>i. i < length rs \<and> name_of repr (rs ! i) = nm
      \<and> (\<forall>j<i. name_of repr (rs ! j) \<noteq> nm))"
    by (metis (no_types, lifting) less_trans)
  finally have "nm \<noteq> [] \<and> nm \<in> name_of repr ` set rs
      \<longleftrightarrow> (\<exists>i. map_of (rebuild_index repr rs) nm = Some i)"
    by (simp add: map_of_rebuild_index)
  then show ?thesis
    by (cases "map_of (rebuild_index repr rs) nm") auto
qed

lemma first_free_props:
  "map_of idx (pre @ str_nat (first_free pre post idx i) @ post) = None
   \<and> i \<le> first_free pre post idx i
   \<and> (\<forall>j. i \<le> j \<and> j < first_free pre post idx i \<longrightarrow> map_of idx (pre @ str_nat j @ post) \<noteq> None)"
proof (induction pre post idx i rule: first_free.induct)
  case (1 pre post idx i)
  show ?case
  proof (cases "map_of idx (pre @ str_nat i @ post) = None")
    case True
    then have "first_free pre post idx i = i"
      by (simp add: first_free.simps [of pre post idx i])
    with True show ?thesis
      by auto
  next
    case False
    with "1.IH" have ih: "map_of idx (pre @ str_nat (first_free pre post idx (Suc i)) @ post) = None"
      "Suc i \<le> first_free pre post idx (Suc i)"
      "\<forall>j. Suc i \<le> j \<and> j < first_free pre post idx (Suc i) \<longrightarrow> map_of idx (pre @ str_nat j @ post) \<noteq> None"
      by auto
    have eq: "first_free pre post idx i = first_free pre post idx (Suc i)"
      using False by (simp add: first_free.simps [of pre post idx i])
    have "map_of idx (pre @ str_nat j @ post) \<noteq> None"
      if "i \<le> j \<and> j < first_free pre post idx (Suc i)" for j
    proof (cases "j = i")
      case True
      with False show ?thesis by simp
    next
      case False
      with that have "Suc i \<le> j \<and> j < first_free pre post idx (Suc i)" by simp
      with ih(3) show ?thesis by blast
    qed
    with ih(1,2) show ?thesis
      unfolding eq by (simp add: Suc_leD)
  qed
qed

lemma with_records_simps [simp]:
  "records (with_records repr rs) = rs"
  "index (with_records repr rs) = rebuild_index repr rs"
  by (simp_all add: with_records_def)

lemma index_ok_with_records: "index_ok repr (with_records repr rs)"
  by (simp add: index_ok_def)

lemma editor_ok_with_records:
  "distinct (map (name_of repr) rs) \<Longrightarrow> editor_ok repr (with_records repr rs)"
  by (simp add: editor_ok_def index_ok_def)

lemma index_None:
  "index_ok repr ed \<Longrightarrow>
     map_of (index ed) nm = None \<longleftrightarrow> nm = [] \<or> nm \<notin> name_of repr ` set (records ed)"
  by (simp add: index_ok_def rebuild_index_None)

lemma index_Some:
  "index_ok repr ed \<Longrightarrow>
     map_of (index ed) nm = Some i \<longleftrightarrow>
       nm \<noteq> [] \<and> i < length (records ed) \<and> name_of repr (records ed ! i) = nm
       \<and> (\<forall>j<i. name_of repr (records ed ! j) \<noteq> nm)"
  by (simp add: index_ok_def map_of_rebuild_index)

lemma dedup_loop_distinct:
  "distinct (map (name_of repr) out) \<Longrightarrow> name_of repr ` set out \<subseteq> seen \<Longrightarrow>
     distinct (map (name_of repr) (dedup_loop repr seen out rs))"
proof (induction rs arbitrary: seen out)
  case Nil
  then show ?case by simp
next
  case (Cons r rs)
  show ?case
  proof (cases "name_of repr r = [] \<or> name_of repr r \<in> seen")
    case True
    with Cons.IH [OF Cons.prems] show ?thesis
      by (auto simp: Let_def)
  next
    case False
    with Cons.prems have "distinct (map (name_of repr) (out @ [r]))"
      "name_of repr ` set (out @ [r]) \<subseteq> insert (name_of repr r) seen"
      by auto
    then have "distinct (map (name_of repr)
        (dedup_loop repr (insert (name_of repr r) seen) (out @ [r]) rs))"
      by (rule Cons.IH)
    with False show ?thesis
      by (simp add: Let_def)
  qed
qed

lemma name_of_named: "name_of repr (AList.update key_name (JStr s) r) = strip s"
  by (simp add: name_of_def dict_get_str_def update_conv' py_str_def)

lemma new_record_name_fold:
  "map_of rec key_name = Some v \<Longrightarrow>
     map_of (fold (\<lambda>f rec. if map_of rec (key f) = None
                            then AList.update (key f) (field_default f) rec else rec) schema rec)
       key_name = Some v"
  by (induction schema arbitrary: rec) (auto simp: update_conv')

lemma name_of_new_record: "name_of repr (new_record schema name) = strip name"
  using new_record_name_fold [of "[(key_name, JStr name)]" "JStr name" schema]
  by (simp add: new_record_def name_of_def dict_get_str_def py_str_def)

lemma name_of_candidate: "name_of repr (candidate field_keys r nm) = strip nm"
  by (simp add: candidate_def name_of_named)

lemma distinct_names_append:
  "distinct (map f rs) \<Longrightarrow> f r \<notin> f ` set rs \<Longrightarrow> distinct (map f (rs @ [r]))"
  by simp

lemma distinct_names_update:
  assumes "distinct (map f rs)" and "i < length rs" and "f r = f (rs ! i) \<or> f r \<notin> f ` set rs"
  shows "distinct (map f (rs[i := r]))"
proof -
  have "map f (rs[i := r]) = (map f rs)[i := f r]"
    by (simp add: map_update)
  moreover have "distinct ((map f rs)[i := f r])"
  proof (cases "f r = f (rs ! i)")
    case True
    with assms(2) have "(map f rs)[i := f r] = map f rs"
      by (simp add: list_update_same_conv)
    with assms(1) show ?thesis by simp
  next
    case False
    with assms(3) have "f r \<notin> set (map f rs)" by simp
    with assms(1) show ?thesis
      by (simp add: distinct_list_update)
  qed
  ultimately show ?thesis by simp
qed

lemma distinct_names_delete:
  assumes "distinct (map f rs)"
  shows "distinct (map f (take i rs @ drop (Suc i) rs))"
proof -
  have "distinct (take i (map f rs) @ drop (Suc i) (map f rs))"
  proof (cases "i < length rs")
    case True
    then have "map f rs = take i (map f rs) @ (map f rs ! i) # drop (Suc i) (map f rs)"
      by (simp add: id_take_nth_drop [symmetric] del: nth_map)
    with assms have "distinct (take i (map f rs) @ (map f rs ! i) # drop (Suc i) (map f rs))"
      by simp
    then show ?thesis by simp
  next
    case False
    with assms show ?thesis by simp
  qed
  then show ?thesis
    by (simp add: take_map drop_map)
qed

lemma editor_okD:
  "editor_ok repr ed \<Longrightarrow> index_ok repr ed"
  "editor_ok repr ed \<Longrightarrow> distinct (map (name_of repr) (records ed))"
  by (simp_all add: editor_ok_def)

lemma index_fresh:
  "index_ok repr ed \<Longrightarrow> nm \<noteq> [] \<Longrightarrow> map_of (index ed) nm = None \<Longrightarrow>
     nm \<notin> name_of repr ` set (records ed)"
  using index_None [of repr ed nm] by simp

lemma editor_ok_append:
  assumes "editor_ok repr ed" and "name_of repr r \<noteq> []"
    and "map_of (index ed) (name_of repr r) = None"
  shows "editor_ok repr (with_records repr (records ed @ [r]))"
proof (rule editor_ok_with_records)
  from assms have "name_of repr r \<notin> name_of repr ` set (records ed)"
    by (simp add: index_fresh editor_okD)
  with assms(1) show "distinct (map (name_of repr) (records ed @ [r]))"
    by (simp add: editor_okD)
qed

lemma add_item_ok: "editor_ok repr ed \<Longrightarrow> editor_ok repr (snd (add_item repr schema answer ed))"
proof -
  assume ok: "editor_ok repr ed"
  show ?thesis
  proof (cases "\<exists>name. answer = Some name \<and> name \<noteq> [] \<and> strip name \<noteq> []
      \<and> map_of (index ed) (strip name) = None")
    case False
    with ok show ?thesis
      by (auto simp: add_item_def Let_def split: option.splits)
  next
    case True
    then obtain name where n: "answer = Some name" "name \<noteq> []" "strip name \<noteq> []"
      "map_of (index ed) (strip name) = None" by blast
    have "editor_ok repr (with_records repr (records ed @ [new_record schema (strip name)]))"
      using ok n(3,4) by (intro editor_ok_append) (simp_all add: name_of_new_record strip_idem)
    then show ?thesis
      using n by (simp add: add_item_def Let_def)
  qed
qed

lemma del_item_ok: "editor_ok repr ed \<Longrightarrow> editor_ok repr (snd (del_item repr sel confirm ed))"
proof -
  assume ok: "editor_ok repr ed"
  have 1: "editor_ok repr (with_records repr (records ed))"
    using ok by (simp add: editor_ok_with_records editor_okD)
  have 2: "editor_ok repr (with_records repr (take i (records ed) @ drop (Suc i) (records ed)))"
    for i
    using ok by (intro editor_ok_with_records distinct_names_delete) (rule editor_okD)
  show ?thesis
    using ok 1 2 by (simp add: del_item_def split: option.splits)
qed

lemma strip_name_of: "strip (name_of repr r) = name_of repr r"
  by (simp add: name_of_def strip_idem)

lemma rename_name_props:
  assumes "strip base = base" and "base \<noteq> []"
  shows "map_of idx (rename_name idx base) = None"
    and "strip (rename_name idx base) = rename_name idx base"
    and "rename_name idx base \<noteq> []"
proof -
  let ?i = "first_free (base @ u '' ('') (u '')'') idx 2"
  have eq: "rename_name idx base = (base @ u '' ('') @ str_nat ?i @ u '')''"
    by (simp add: rename_name_def fmt_rename_def)
  show "map_of idx (rename_name idx base) = None"
    unfolding eq using first_free_props [of idx "base @ u '' (''" "u '')''" 2] by simp
  have "strip (base @ (u '' ('' @ str_nat ?i @ u '')'')) = base @ (u '' ('' @ str_nat ?i @ u '')'')"
    using assms by (intro strip_suffixed) (simp_all add: u_def is_space_def)
  then show "strip (rename_name idx base) = rename_name idx base"
    by (simp add: eq)
  show "rename_name idx base \<noteq> []"
    using assms(2) by (simp add: eq)
qed

lemma copy_name_props:
  assumes "strip base = base" and "base \<noteq> []"
  shows "map_of idx (copy_name idx base) = None"
    and "strip (copy_name idx base) = copy_name idx base"
    and "copy_name idx base \<noteq> []"
proof -
  let ?pre = "base @ u '' ('' @ [22797, 21046]"
  let ?i = "first_free ?pre (u '')'') idx 2"
  have eq: "copy_name idx base = ?pre @ str_nat ?i @ u '')''"
    by (simp add: copy_name_def fmt_copy_def)
  show "map_of idx (copy_name idx base) = None"
    unfolding eq using first_free_props [of idx ?pre "u '')''" 2] by simp
  have "strip (base @ (u '' ('' @ [22797, 21046] @ str_nat ?i @ u '')''))
      = base @ (u '' ('' @ [22797, 21046] @ str_nat ?i @ u '')'')"
    using assms by (intro strip_suffixed) (simp_all add: u_def is_space_def)
  then show "strip (copy_name idx base) = copy_name idx base"
    by (simp add: eq)
  show "copy_name idx base \<noteq> []"
    using assms(2) by (simp add: eq)
qed

lemma index_key_trimmed:
  "index_ok repr ed \<Longrightarrow> map_of (index ed) nm = Some i \<Longrightarrow> strip nm = nm \<and> nm \<noteq> []"
  using strip_name_of [of repr "records ed ! i"] by (auto simp: index_Some)

lemma dup_item_ok: "editor_ok repr ed \<Longrightarrow> editor_ok repr (snd (dup_item repr sel ed))"
proof -
  assume ok: "editor_ok repr ed"
  show ?thesis
  proof (cases "\<exists>old idx. sel = Some old \<and> map_of (index ed) old = Some idx
      \<and> idx < length (records ed)")
    case False
    with ok show ?thesis
      by (auto simp: dup_item_def Let_def split: option.splits)
  next
    case True
    then obtain old idx where s: "sel = Some old" "map_of (index ed) old = Some idx"
      "idx < length (records ed)" by blast
    from ok s(2) have t: "strip old = old" "old \<noteq> []"
      using index_key_trimmed [of repr ed old idx] by (simp_all add: editor_okD)
    let ?new = "copy_name (index ed) old"
    let ?r = "AList.update key_name (JStr ?new) (records ed ! idx)"
    have "name_of repr ?r = ?new"
      by (simp add: name_of_named copy_name_props [OF t])
    then have "editor_ok repr (with_records repr (records ed @ [?r]))"
      using ok by (intro editor_ok_append) (simp_all add: copy_name_props [OF t])
    with s show ?thesis
      by (simp add: dup_item_def Let_def)
  qed
qed

lemma editor_ok_update:
  assumes "editor_ok repr ed" and "map_of (index ed) old = Some idx"
    and "name_of repr r \<noteq> []"
    and "name_of repr r = old \<or> map_of (index ed) (name_of repr r) = None"
  shows "editor_ok repr (with_records repr ((records ed)[idx := r]))"
proof (rule editor_ok_with_records)
  from assms(1) have io: "index_ok repr ed"
    by (rule editor_okD)
  from assms(2) have i: "idx < length (records ed)" "name_of repr (records ed ! idx) = old"
    using index_Some [OF io, of old idx] by simp_all
  from assms have "name_of repr r = name_of repr (records ed ! idx)
      \<or> name_of repr r \<notin> name_of repr ` set (records ed)"
    using index_fresh [of repr ed "name_of repr r"] i(2) by (auto simp: editor_okD)
  with assms(1) i(1) show "distinct (map (name_of repr) ((records ed)[idx := r]))"
    by (intro distinct_names_update) (simp_all add: editor_okD)
qed

lemma save_current_item_ok:
  "editor_ok repr ed \<Longrightarrow> editor_ok repr (snd (save_current_item repr schema form sel ed))"
proof -
  assume ok: "editor_ok repr ed"
  have "editor_ok repr (with_records repr ((records ed)[idx := r]))"
    if "map_of (index ed) old = Some idx" "name_of repr r \<noteq> []"
      "\<not> (name_of repr r \<noteq> old \<and> map_of (index ed) (name_of repr r) \<noteq> None)"
    for old idx r
    using ok that by (intro editor_ok_update [of repr ed old]) auto
  with ok show ?thesis
    by (simp add: save_current_item_def Let_def split: option.splits)
qed

lemma import_row_ok:
  assumes "editor_ok repr ed"
  shows "\<exists>ed' c'. import_row repr fk name_col st r (ed, c) = Inr (ed', c') \<and> editor_ok repr ed'"
proof (cases "strip (csv_cell r name_col) = []")
  case True
  with assms show ?thesis
    by (simp add: import_row_def Let_def)
next
  case False
  let ?nm = "strip (csv_cell r name_col)"
  let ?rec = "candidate fk r ?nm"
  have nm: "name_of repr ?rec = ?nm"
    by (simp add: name_of_candidate strip_idem)
  show ?thesis
  proof (cases "map_of (index ed) ?nm")
    case None
    with assms False nm have "editor_ok repr (with_records repr (records ed @ [?rec]))"
      by (intro editor_ok_append) simp_all
    with False None show ?thesis
      by (simp add: import_row_def Let_def)
  next
    case (Some idx)
    then have idx: "idx < length (records ed)"
      using index_Some [OF editor_okD(1) [OF assms], of ?nm idx] by simp
    show ?thesis
    proof (cases st)
      case Skip
      with assms False Some show ?thesis
        by (simp add: import_row_def Let_def)
    next
      case Overwrite
      from assms Some False nm have "editor_ok repr (with_records repr ((records ed)[idx := ?rec]))"
        by (intro editor_ok_update [of repr ed ?nm]) simp_all
      with False Some idx Overwrite show ?thesis
        by (simp add: import_row_def Let_def)
    next
      case Rename
      let ?new = "rename_name (index ed) ?nm"
      have t: "strip ?nm = ?nm" "?nm \<noteq> []"
        using False by (simp_all add: strip_idem)
      have "name_of repr (AList.update key_name (JStr ?new) ?rec) = ?new"
        by (simp add: name_of_named rename_name_props [OF t])
      then have "editor_ok repr
          (with_records repr (records ed @ [AList.update key_name (JStr ?new) ?rec]))"
        using assms by (intro editor_ok_append) (simp_all add: rename_name_props [OF t])
      with False Some Rename show ?thesis
        by (simp add: import_row_def Let_def)
    qed
  qed
qed

lemma import_rows_ok:
  "editor_ok repr ed \<Longrightarrow>
     \<exists>ed' c'. import_rows repr fk name_col st rows (ed, c) = Inr (ed', c') \<and> editor_ok repr ed'"
proof (induction rows arbitrary: ed c)
  case Nil
  then show ?case by simp
next
  case (Cons r rows)
  from import_row_ok [OF Cons.prems, of fk name_col st r c]
  obtain ed1 c1 where 1: "import_row repr fk name_col st r (ed, c) = Inr (ed1, c1)"
    "editor_ok repr ed1" by blast
  from Cons.IH [OF 1(2), of c1] 1(1) show ?case
    by simp
qed

lemma import_rows_result_ok:
  assumes "editor_ok repr ed"
  shows "editor_ok repr
    (fst (snd (case import_rows repr fk nc st rows (ed, z) of
                 Inl ed' \<Rightarrow> (Raised, ed', z)
               | Inr s \<Rightarrow> (ShowInfo, fst s, snd s))))"
proof -
  from import_rows_ok [OF assms, of fk nc st rows z]
  obtain ed' c' where "import_rows repr fk nc st rows (ed, z) = Inr (ed', c')"
    "editor_ok repr ed'" by blast
  then show ?thesis by simp
qed

lemma import_csv_ok:
  "editor_ok repr ed \<Longrightarrow> editor_ok repr (fst (snd (import_csv repr schema rows chosen st ed)))"
  by (simp add: import_csv_def Let_def import_rows_result_ok)

lemma first_free_stop:
  "map_of idx (pre @ str_nat i @ post) = None \<Longrightarrow> first_free pre post idx i = i"
  by (simp add: first_free.simps [of pre post idx i])

lemma first_free_next:
  "map_of idx (pre @ str_nat i @ post) = Some v \<Longrightarrow>
     first_free pre post idx i = first_free pre post idx (Suc i)"
  by (simp add: first_free.simps [of pre post idx i])

lemma str_nat_digits: "str_nat 2 = [50]" "str_nat 3 = [51]" "str_nat (Suc 2) = [51]"
  by (simp_all add: str_nat.simps [of 2] str_nat.simps [of 3] str_nat.simps [of "Suc 2"])

subsection \<open>C2: renaming on import\<close>

lemma import_rows_append:
  "import_rows repr fk nc st (rows @ [r]) s =
     (case import_rows repr fk nc st rows s of
        Inl ed \<Rightarrow> Inl ed
      | Inr s' \<Rightarrow> import_row repr fk nc st r s')"
  by (induction rows arbitrary: s) (simp_all split: sum.splits)

lemma import_rows_index_ok:
  "index_ok repr ed \<Longrightarrow> import_rows repr fk nc st rows (ed, c) = Inr (ed', c') \<Longrightarrow>
     index_ok repr ed'"
proof (induction rows arbitrary: ed c)
  case Nil
  then show ?case by simp
next
  case (Cons r rows)
  from Cons.prems(2) obtain ed1 c1 where
    1: "import_row repr fk nc st r (ed, c) = Inr (ed1, c1)"
    and 2: "import_rows repr fk nc st rows (ed1, c1) = Inr (ed', c')"
    by (auto split: sum.splits)
  from 1 Cons.prems(1) have "index_ok repr ed1"
    by (auto simp: import_row_def Let_def index_ok_with_records
        split: if_splits option.splits policy.splits)
  then show ?case
    using 2 by (rule Cons.IH)
qed

lemma rename_name_least:
  assumes "index_ok repr ed" and "strip nm = nm" and "nm \<noteq> []"
  shows "\<exists>i\<ge>2. rename_name (index ed) nm = fmt_rename nm i
    \<and> fmt_rename nm i \<notin> name_of repr ` set (records ed)
    \<and> (\<forall>j. 2 \<le> j \<and> j < i \<longrightarrow> fmt_rename nm j \<in> name_of repr ` set (records ed))"
proof -
  let ?i = "first_free (nm @ u '' ('') (u '')'') (index ed) 2"
  have f: "fmt_rename nm j = (nm @ u '' ('') @ str_nat j @ u '')''" for j
    by (simp add: fmt_rename_def)
  have ne: "fmt_rename nm j \<noteq> []" for j
    using assms(3) by (simp add: fmt_rename_def)
  from first_free_props [of "index ed" "nm @ u '' (''" "u '')''" 2]
  have p: "map_of (index ed) (fmt_rename nm ?i) = None" "2 \<le> ?i"
    "\<forall>j. 2 \<le> j \<and> j < ?i \<longrightarrow> map_of (index ed) (fmt_rename nm j) \<noteq> None"
    unfolding f by auto
  from p(1) have "fmt_rename nm ?i \<notin> name_of repr ` set (records ed)"
    using index_None [OF assms(1), of "fmt_rename nm ?i"] ne by simp
  moreover from p(3) have
    "\<forall>j. 2 \<le> j \<and> j < ?i \<longrightarrow> fmt_rename nm j \<in> name_of repr ` set (records ed)"
    using index_None [OF assms(1)] ne by blast
  moreover have "rename_name (index ed) nm = fmt_rename nm ?i"
    by (simp add: rename_name_def)
  ultimately show ?thesis
    using p(2) by blast
qed

lemma rename_example_facts:
  "strip (csv_cell row_A key_name) = u ''A''"
  "candidate [key_name] row_A (u ''A'') = [(key_name, JStr (u ''A''))]"
  "rebuild_index repr [rec_A] = [(u ''A'', 0)]"
  "rename_name [(u ''A'', 0)] (u ''A'') = u ''A (2)''"
  "rebuild_index repr [rec_A, [(key_name, JStr (u ''A (2)''))]]
     = [(u ''A'', 0), (u ''A (2)'', Suc 0)]"
  "rename_name [(u ''A'', 0), (u ''A (2)'', Suc 0)] (u ''A'') = u ''A (3)''"
  "name_of repr rec_A = u ''A''"
  by (simp_all add: csv_cell_def row_A_def candidate_def rebuild_index_def rec_A_def name_of_def
        dict_get_str_def py_str_def rename_name_def fmt_rename_def first_free_stop
        first_free_next [where i = 2 and v = "Suc 0"] str_nat_digits eval_keys Let_def)

text \<open>
  C2. Import under the rename policy, with a consistent index at the start. Let a row,
  coming after the rows \<open>earlier\<close> of the same batch, have the trimmed name \<open>nm\<close>,
  and let \<open>nm\<close> be the trimmed name of a record of the editor as the earlier rows
  left it. Then the row is appended, named \<open>nm (i)\<close> for the least \<open>i \<ge> 2\<close> whose
  name \<open>nm (i)\<close> no record of that editor has, the records added or renamed by the
  earlier rows included, and the renamed count goes up by one. With one record A, two
  rows named A give the records A, A (2), A (3), the first one as it was.
\<close>

theorem import_rename:
  "(index_ok repr ed
    \<and> import_rows repr fk name_col Rename earlier (ed, c) = Inr (ed1, c1)
    \<and> strip (csv_cell r name_col) = nm \<and> nm \<noteq> []
    \<and> nm \<in> name_of repr ` set (records ed1) \<longrightarrow>
      (\<exists>i\<ge>2. import_rows repr fk name_col Rename (earlier @ [r]) (ed, c)
                = Inr (with_records repr
                         (records ed1
                          @ [AList.update key_name (JStr (fmt_rename nm i)) (candidate fk r nm)]),
                       c1\<lparr>renamed := renamed c1 + 1\<rparr>)
           \<and> name_of repr (AList.update key_name (JStr (fmt_rename nm i)) (candidate fk r nm))
               = fmt_rename nm i
           \<and> fmt_rename nm i \<notin> name_of repr ` set (records ed1)
           \<and> (\<forall>j. 2 \<le> j \<and> j < i \<longrightarrow> fmt_rename nm j \<in> name_of repr ` set (records ed1))))
   \<and> (\<exists>ed'. import_rows repr [key_name] key_name Rename [row_A, row_A]
               (with_records repr [rec_A], zero_counts)
             = Inr (ed', zero_counts\<lparr>renamed := 2\<rparr>)
           \<and> records ed' = [rec_A, [(key_name, JStr (u ''A (2)''))],
                              [(key_name, JStr (u ''A (3)''))]])"
proof (intro conjI impI)
  assume a: "index_ok repr ed
    \<and> import_rows repr fk name_col Rename earlier (ed, c) = Inr (ed1, c1)
    \<and> strip (csv_cell r name_col) = nm \<and> nm \<noteq> []
    \<and> nm \<in> name_of repr ` set (records ed1)"
  then have ok1: "index_ok repr ed1"
    using import_rows_index_ok [of repr ed fk name_col Rename earlier c ed1 c1] by simp
  from a have nmeq: "nm = strip (csv_cell r name_col)" and nmne: "nm \<noteq> []"
    by simp_all
  have t: "strip nm = nm" "nm \<noteq> []"
    by (simp_all only: nmeq strip_idem nmne [unfolded nmeq] not_False_eq_True)
  from a obtain idx where idx: "map_of (index ed1) nm = Some idx"
    using index_None [OF ok1, of nm] by (cases "map_of (index ed1) nm") auto
  from rename_name_least [OF ok1 t] obtain i where i: "2 \<le> i"
    "rename_name (index ed1) nm = fmt_rename nm i"
    "fmt_rename nm i \<notin> name_of repr ` set (records ed1)"
    "\<forall>j. 2 \<le> j \<and> j < i \<longrightarrow> fmt_rename nm j \<in> name_of repr ` set (records ed1)"
    by blast
  have "import_row repr fk name_col Rename r (ed1, c1)
      = Inr (with_records repr
               (records ed1 @ [AList.update key_name (JStr (fmt_rename nm i)) (candidate fk r nm)]),
             c1\<lparr>renamed := renamed c1 + 1\<rparr>)"
    using a idx i(2) by (simp add: import_row_def Let_def)
  moreover have "name_of repr (AList.update key_name (JStr (fmt_rename nm i)) (candidate fk r nm))
      = fmt_rename nm i"
    using rename_name_props(2) [OF t, of "index ed1"] i(2) by (simp add: name_of_named)
  ultimately show "\<exists>i\<ge>2. import_rows repr fk name_col Rename (earlier @ [r]) (ed, c)
                = Inr (with_records repr
                         (records ed1
                          @ [AList.update key_name (JStr (fmt_rename nm i)) (candidate fk r nm)]),
                       c1\<lparr>renamed := renamed c1 + 1\<rparr>)
           \<and> name_of repr (AList.update key_name (JStr (fmt_rename nm i)) (candidate fk r nm))
               = fmt_rename nm i
           \<and> fmt_rename nm i \<notin> name_of repr ` set (records ed1)
           \<and> (\<forall>j. 2 \<le> j \<and> j < i \<longrightarrow> fmt_rename nm j \<in> name_of repr ` set (records ed1))"
    using a i by (intro exI [of _ i]) (simp add: import_rows_append)
next
  show "\<exists>ed'. import_rows repr [key_name] key_name Rename [row_A, row_A]
               (with_records repr [rec_A], zero_counts)
             = Inr (ed', zero_counts\<lparr>renamed := 2\<rparr>)
           \<and> records ed' = [rec_A, [(key_name, JStr (u ''A (2)''))],
                              [(key_name, JStr (u ''A (3)''))]]"
    by (simp add: import_row_def Let_def rename_example_facts zero_counts_def u_Nil_iff)
qed

theorem import_rename_witness:
  "index_ok sample_repr (with_records sample_repr [rec_A])
   \<and> import_rows sample_repr [key_name] key_name Rename [row_A]
        (with_records sample_repr [rec_A], zero_counts)
       = Inr (with_records sample_repr [rec_A, [(key_name, JStr (u ''A (2)''))]],
              zero_counts\<lparr>renamed := 1\<rparr>)
   \<and> strip (csv_cell row_A key_name) = u ''A''
   \<and> u ''A'' \<in> name_of sample_repr ` set [rec_A, [(key_name, JStr (u ''A (2)''))]]
   \<and> (\<exists>i\<ge>2. import_rows sample_repr [key_name] key_name Rename ([row_A] @ [row_A])
                 (with_records sample_repr [rec_A], zero_counts)
               = Inr (with_records sample_repr
                        ([rec_A, [(key_name, JStr (u ''A (2)''))]]
                         @ [AList.update key_name (JStr (fmt_rename (u ''A'') i))
                              (candidate [key_name] row_A (u ''A''))]),
                      zero_counts\<lparr>renamed := 1, renamed := 2\<rparr>))"
proof -
  have 1: "import_rows sample_repr [key_name] key_name Rename [row_A]
        (with_records sample_repr [rec_A], zero_counts)
       = Inr (with_records sample_repr [rec_A, [(key_name, JStr (u ''A (2)''))]],
              zero_counts\<lparr>renamed := 1\<rparr>)"
    by (simp add: import_row_def Let_def rename_example_facts zero_counts_def u_Nil_iff)
  have 2: "u ''A'' \<in> name_of sample_repr ` set [rec_A, [(key_name, JStr (u ''A (2)''))]]"
    by (simp add: rename_example_facts)
  have 3: "u ''A'' \<noteq> []"
    by (simp add: u_def)
  from import_rename [of sample_repr "with_records sample_repr [rec_A]" "[key_name]" key_name
      "[row_A]" zero_counts "with_records sample_repr [rec_A, [(key_name, JStr (u ''A (2)''))]]"
      "zero_counts\<lparr>renamed := 1\<rparr>" row_A "u ''A''"]
    index_ok_with_records [of sample_repr "[rec_A]"] 1 2 3 rename_example_facts(1)
  have "\<exists>i\<ge>2. import_rows sample_repr [key_name] key_name Rename ([row_A] @ [row_A])
                 (with_records sample_repr [rec_A], zero_counts)
               = Inr (with_records sample_repr
                        ([rec_A, [(key_name, JStr (u ''A (2)''))]]
                         @ [AList.update key_name (JStr (fmt_rename (u ''A'') i))
                              (candidate [key_name] row_A (u ''A''))]),
                      zero_counts\<lparr>renamed := 1, renamed := 2\<rparr>)"
    by (auto simp: zero_counts_def)
  with index_ok_with_records [of sample_repr "[rec_A]"] 1 2 rename_example_facts(1)
  show ?thesis by blast
qed

subsection \<open>C7: overwriting on import\<close>

text \<open>
  C7. Import of one row under the overwrite policy, with a consistent index. When the
  trimmed name of the row is the trimmed name of a record, the candidate built from
  the row replaces the first such record at its position, the number of records and
  every other position stay as they were, and only the updated count goes up, by one.
  A row whose trimmed name is empty leaves the editor and the counters as they were,
  under every policy.
\<close>

theorem import_overwrite:
  "(index_ok repr ed \<and> strip (csv_cell r name_col) = nm \<and> nm \<noteq> []
    \<and> nm \<in> name_of repr ` set (records ed) \<longrightarrow>
      (\<exists>idx ed'. import_row repr fk name_col Overwrite r (ed, c)
                   = Inr (ed', c\<lparr>updated := updated c + 1\<rparr>)
         \<and> idx < length (records ed) \<and> name_of repr (records ed ! idx) = nm
         \<and> (\<forall>j<idx. name_of repr (records ed ! j) \<noteq> nm)
         \<and> length (records ed') = length (records ed)
         \<and> records ed' ! idx = candidate fk r nm
         \<and> (\<forall>j<length (records ed). j \<noteq> idx \<longrightarrow> records ed' ! j = records ed ! j)))
   \<and> (strip (csv_cell r name_col) = [] \<longrightarrow>
        import_row repr fk name_col st r (ed, c) = Inr (ed, c))"
proof (intro conjI impI)
  assume a: "index_ok repr ed \<and> strip (csv_cell r name_col) = nm \<and> nm \<noteq> []
    \<and> nm \<in> name_of repr ` set (records ed)"
  then obtain idx where idx: "map_of (index ed) nm = Some idx"
    using index_None [of repr ed nm] by (cases "map_of (index ed) nm") auto
  with a have i: "idx < length (records ed)" "name_of repr (records ed ! idx) = nm"
    "\<forall>j<idx. name_of repr (records ed ! j) \<noteq> nm"
    using index_Some [of repr ed nm idx] by simp_all
  let ?ed = "with_records repr ((records ed)[idx := candidate fk r nm])"
  have "import_row repr fk name_col Overwrite r (ed, c) = Inr (?ed, c\<lparr>updated := updated c + 1\<rparr>)"
    using a idx i(1) by (simp add: import_row_def Let_def)
  moreover have "length (records ?ed) = length (records ed)"
    "records ?ed ! idx = candidate fk r nm"
    "\<forall>j<length (records ed). j \<noteq> idx \<longrightarrow> records ?ed ! j = records ed ! j"
    using i(1) by simp_all
  ultimately show "\<exists>idx ed'. import_row repr fk name_col Overwrite r (ed, c)
                   = Inr (ed', c\<lparr>updated := updated c + 1\<rparr>)
         \<and> idx < length (records ed) \<and> name_of repr (records ed ! idx) = nm
         \<and> (\<forall>j<idx. name_of repr (records ed ! j) \<noteq> nm)
         \<and> length (records ed') = length (records ed)
         \<and> records ed' ! idx = candidate fk r nm
         \<and> (\<forall>j<length (records ed). j \<noteq> idx \<longrightarrow> records ed' ! j = records ed ! j)"
    using i by blast
next
  assume "strip (csv_cell r name_col) = []"
  then show "import_row repr fk name_col st r (ed, c) = Inr (ed, c)"
    by (simp add: import_row_def Let_def)
qed

lemma overwrite_example_facts:
  "strip (csv_cell row_A9 key_name) = u ''A''"
  "strip (csv_cell row_blank key_name) = []"
  "name_of repr rec_B = u ''B''"
  "candidate [key_name, u ''x''] row_A9 (u ''A'') = [(key_name, JStr (u ''A'')), (u ''x'', JStr (u ''9''))]"
  by (simp_all add: csv_cell_def row_A9_def row_blank_def rec_B_def candidate_def name_of_def
        dict_get_str_def py_str_def eval_keys)

lemma list_of_two: "length xs = 2 \<Longrightarrow> xs = [xs ! 0, xs ! 1]"
  by (cases xs; cases "tl xs") auto

theorem import_overwrite_witness:
  "index_ok sample_repr (with_records sample_repr [rec_B, rec_A1])
   \<and> strip (csv_cell row_A9 key_name) = u ''A''
   \<and> u ''A'' \<in> name_of sample_repr ` set [rec_B, rec_A1]
   \<and> (\<exists>ed'. import_row sample_repr [key_name, u ''x''] key_name Overwrite row_A9
               (with_records sample_repr [rec_B, rec_A1], zero_counts)
             = Inr (ed', zero_counts\<lparr>updated := 1\<rparr>)
           \<and> records ed' = [rec_B, [(key_name, JStr (u ''A'')), (u ''x'', JStr (u ''9''))]])
   \<and> strip (csv_cell row_blank key_name) = []
   \<and> import_row sample_repr [key_name, u ''x''] key_name Overwrite row_blank
        (with_records sample_repr [rec_B, rec_A1], zero_counts)
       = Inr (with_records sample_repr [rec_B, rec_A1], zero_counts)"
proof -
  let ?ed = "with_records sample_repr [rec_B, rec_A1]"
  let ?fk = "[key_name, u ''x'']"
  let ?new = "[(key_name, JStr (u ''A'')), (u ''x'', JStr (u ''9''))]"
  have ok: "index_ok sample_repr ?ed"
    by (rule index_ok_with_records)
  have m: "u ''A'' \<in> name_of sample_repr ` set (records ?ed)" "u ''A'' \<noteq> []"
    by (simp_all add: example_names u_def)
  from import_overwrite [of sample_repr ?ed row_A9 key_name "u ''A''" ?fk zero_counts Overwrite]
    ok m overwrite_example_facts(1)
  obtain idx ed' where r:
    "import_row sample_repr ?fk key_name Overwrite row_A9 (?ed, zero_counts)
       = Inr (ed', zero_counts\<lparr>updated := updated zero_counts + 1\<rparr>)"
    "idx < length (records ?ed)" "name_of sample_repr (records ?ed ! idx) = u ''A''"
    "length (records ed') = length (records ?ed)"
    "records ed' ! idx = candidate ?fk row_A9 (u ''A'')"
    "\<forall>j<length (records ?ed). j \<noteq> idx \<longrightarrow> records ed' ! j = records ?ed ! j"
    by blast
  have "idx \<noteq> 0"
  proof
    assume "idx = 0"
    with r(3) have "u ''B'' = u ''A''"
      by (simp add: overwrite_example_facts)
    then show False
      by (simp add: u_def)
  qed
  with r(2) have idx: "idx = 1"
    by simp
  from r(4) have "records ed' = [records ed' ! 0, records ed' ! 1]"
    by (intro list_of_two) simp
  also have "records ed' ! 0 = rec_B"
    using r(6) idx by simp
  also have "records ed' ! 1 = ?new"
    using r(5) idx by (simp add: overwrite_example_facts)
  finally have recs: "records ed' = [rec_B, ?new]" .
  from r(1) have "import_row sample_repr ?fk key_name Overwrite row_A9 (?ed, zero_counts)
      = Inr (ed', zero_counts\<lparr>updated := 1\<rparr>)"
    by (simp add: zero_counts_def)
  with recs have 1: "\<exists>ed'. import_row sample_repr ?fk key_name Overwrite row_A9 (?ed, zero_counts)
      = Inr (ed', zero_counts\<lparr>updated := 1\<rparr>) \<and> records ed' = [rec_B, ?new]"
    by blast
  from import_overwrite [of sample_repr ?ed row_blank key_name "[]" ?fk zero_counts Overwrite]
    overwrite_example_facts(2)
  have 2: "import_row sample_repr ?fk key_name Overwrite row_blank (?ed, zero_counts)
      = Inr (?ed, zero_counts)"
    by simp
  from ok m(1) overwrite_example_facts(1,2) 1 2 show ?thesis
    by simp
qed

subsection \<open>C9: distinct names in the editor\<close>

text \<open>
  C9. The trimmed names of the editor's records are pairwise distinct (and the index
  is the one built from the records): \<open>apply_records\<close> establishes this for every
  list it is given, and \<open>add_item\<close>, \<open>dup_item\<close>, \<open>del_item\<close>,
  \<open>save_current_item\<close> and \<open>import_csv\<close> under every policy preserve it, whatever
  the user enters or selects.
\<close>

theorem editor_names_distinct:
  "editor_ok repr (apply_records repr rs)
   \<and> (editor_ok repr ed \<longrightarrow>
        distinct (map (name_of repr) (records ed))
      \<and> editor_ok repr (snd (add_item repr schema answer ed))
      \<and> editor_ok repr (snd (dup_item repr sel ed))
      \<and> editor_ok repr (snd (del_item repr sel confirm ed))
      \<and> editor_ok repr (snd (save_current_item repr schema form sel ed))
      \<and> editor_ok repr (fst (snd (import_csv repr schema rows chosen st ed))))"
proof (intro conjI impI)
  have "distinct (map (name_of repr) (dedup repr rs))"
    unfolding dedup_def by (rule dedup_loop_distinct) simp_all
  then show "editor_ok repr (apply_records repr rs)"
    by (simp add: apply_records_def editor_ok_with_records)
qed (simp_all add: editor_okD add_item_ok dup_item_ok del_item_ok save_current_item_ok
      import_csv_ok)

theorem editor_names_distinct_witness:
  "editor_ok sample_repr (apply_records sample_repr [rec_A1, rec_blank, rec_A2, rec_B])
   \<and> records (apply_records sample_repr [rec_A1, rec_blank, rec_A2, rec_B]) = [rec_A1, rec_B]
   \<and> editor_ok sample_repr (snd (add_item sample_repr races_fields (Some (u ''B ''))
        (apply_records sample_repr [rec_A1, rec_blank, rec_A2, rec_B])))
   \<and> editor_ok sample_repr (snd (dup_item sample_repr (Some (u ''A''))
        (apply_records sample_repr [rec_A1, rec_blank, rec_A2, rec_B])))
   \<and> editor_ok sample_repr (fst (snd (import_csv sample_repr races_fields [row_A, row_A] [] Rename
        (apply_records sample_repr [rec_A1, rec_blank, rec_A2, rec_B]))))"
proof -
  have "records (apply_records sample_repr [rec_A1, rec_blank, rec_A2, rec_B]) = [rec_A1, rec_B]"
    by (simp add: apply_records_def dedup_def example_names overwrite_example_facts u_def)
  with editor_names_distinct [of sample_repr "[rec_A1, rec_blank, rec_A2, rec_B]"
      "apply_records sample_repr [rec_A1, rec_blank, rec_A2, rec_B]" races_fields
      "Some (u ''B '')" "Some (u ''A'')" True "\<lambda>k. TextW []" "[row_A, row_A]" "[]" Rename]
  show ?thesis by simp
qed

subsection \<open>C8: saving and loading back\<close>
















end
